theory Spec2Isabelle
  imports Main
begin

section \<open>Tokens (tokenizer.h, tokenizer.cpp)\<close>

text \<open>
  Modelled from the spec: the header \<^verbatim>\<open>tokenizer.h\<close> that declares the token kinds and the
  \<^verbatim>\<open>Token\<close> struct used by \<^verbatim>\<open>tokenizer.cpp\<close> and \<^verbatim>\<open>parser.hpp\<close> is missing. The kinds
  are the closed set of the spec, under the names that \<^verbatim>\<open>to_string\<close> of
  \<^verbatim>\<open>tokenizer.cpp\<close> switches over.
\<close>

datatype TokenType =
    RETURN | VAR | FUNC | IDENTIFIER | TYPE_INT | TYPE_CHAR
  | INTEGER_LITERAL | CHAR_LITERAL | IF | ELIF | ELSE
  | EQUAL | COLON | COMMA | LEFT_PARENTHESIS | RIGHT_PARENTHESIS
  | LEFT_CURLY_BACKET | RIGHT_CURLY_BRACKET | PLUS | MINUS | STAR | SLASH

text \<open>
  Modelled from the spec: the \<^verbatim>\<open>Token\<close> struct of the missing header, with the three fields
  that the designated initialisers of \<^verbatim>\<open>Tokenizer::tokenize\<close> set (kind, line, optional text).
\<close>

record Token =
  type :: TokenType
  line :: int
  val :: "string option"

fun to_string :: "TokenType \<Rightarrow> string" where
  "to_string RETURN = ''return value''"
| "to_string VAR = ''var''"
| "to_string FUNC = ''func''"
| "to_string IDENTIFIER = ''identifier''"
| "to_string TYPE_INT = ''int''"
| "to_string TYPE_CHAR = ''char''"
| "to_string INTEGER_LITERAL = ''integer literal''"
| "to_string CHAR_LITERAL = ''char literal''"
| "to_string IF = ''if''"
| "to_string ELIF = ''elif''"
| "to_string ELSE = ''else''"
| "to_string EQUAL = ''=''"
| "to_string COLON = '':''"
| "to_string COMMA = '',''"
| "to_string LEFT_PARENTHESIS = ''(''"
| "to_string RIGHT_PARENTHESIS = '')''"
| "to_string LEFT_CURLY_BACKET = ''{''"
| "to_string RIGHT_CURLY_BRACKET = ''}''"
| "to_string PLUS = ''+''"
| "to_string MINUS = ''-''"
| "to_string STAR = ''*''"
| "to_string SLASH = ''/''"

fun bin_prec :: "TokenType \<Rightarrow> int option" where
  "bin_prec PLUS = Some 0"
| "bin_prec MINUS = Some 0"
| "bin_prec STAR = Some 1"
| "bin_prec SLASH = Some 1"
| "bin_prec _ = None"

section \<open>The tokenizer (tokenizer.cpp)\<close>

text \<open>
  The character classes of \<^verbatim>\<open><cctype>\<close> in the C locale, on the byte value of the character.
\<close>

definition isdigit :: "char \<Rightarrow> bool" where
  "isdigit c = (let k = (of_char c :: nat) in 48 \<le> k \<and> k \<le> 57)"

definition isalpha :: "char \<Rightarrow> bool" where
  "isalpha c = (let k = (of_char c :: nat) in (65 \<le> k \<and> k \<le> 90) \<or> (97 \<le> k \<and> k \<le> 122))"

definition isalnum :: "char \<Rightarrow> bool" where
  "isalnum c = (isalpha c \<or> isdigit c)"

definition isspace :: "char \<Rightarrow> bool" where
  "isspace c = (let k = (of_char c :: nat) in k = 32 \<or> (9 \<le> k \<and> k \<le> 13))"

abbreviation newline :: char where
  "newline \<equiv> CHR 0x0A"

abbreviation quote :: char where
  "quote \<equiv> CHR 0x27"

text \<open>
  A fatal lexical error: the text written to the error stream before the line number, and
  the line number that follows it. The process exits, so no token sequence is produced.
\<close>

datatype lex_error = LexError string int

text \<open>\<^verbatim>\<open>Tokenizer::peek\<close>: the character at \<^verbatim>\<open>_index + offset\<close>, if there is one.\<close>

definition peek_char :: "string \<Rightarrow> nat \<Rightarrow> nat \<Rightarrow> char option" where
  "peek_char src i offset =
     (if i + offset \<ge> length src then None else Some (src ! (i + offset)))"

text \<open>
  The inner loops \<^verbatim>\<open>while (peek().has_value() && P(peek().value())) buf.push_back(consume());\<close>
  return the buffer and the new cursor.
\<close>

function read_while :: "(char \<Rightarrow> bool) \<Rightarrow> string \<Rightarrow> nat \<Rightarrow> string \<Rightarrow> string \<times> nat" where
  "read_while P src i buf =
     (if i < length src \<and> P (src ! i) then read_while P src (Suc i) (buf @ [src ! i])
      else (buf, i))"
  by pat_completeness auto
termination
  by (relation "measure (\<lambda>(P, src, i, buf). length src - i)") auto

declare read_while.simps [simp del]

text \<open>The line comment loop: consume up to, and not including, the next newline.\<close>

function skip_line_comment :: "string \<Rightarrow> nat \<Rightarrow> nat" where
  "skip_line_comment src i =
     (if i < length src \<and> src ! i \<noteq> newline then skip_line_comment src (Suc i) else i)"
  by pat_completeness auto
termination
  by (relation "measure (\<lambda>(src, i). length src - i)") auto

declare skip_line_comment.simps [simp del]

text \<open>
  The block comment loop: consume until the cursor stands on \<^verbatim>\<open>*/\<close> or the input ends.
  No character consumed here is looked at for being a newline.
\<close>

function skip_block_comment :: "string \<Rightarrow> nat \<Rightarrow> nat" where
  "skip_block_comment src i =
     (if i < length src then
        (if src ! i = CHR ''*'' \<and> peek_char src i 1 = Some (CHR ''/'') then i
         else skip_block_comment src (Suc i))
      else i)"
  by pat_completeness auto
termination
  by (relation "measure (\<lambda>(src, i). length src - i)") auto

declare skip_block_comment.simps [simp del]

text \<open>The keyword table applied to a finished identifier buffer.\<close>

definition word_token :: "string \<Rightarrow> int \<Rightarrow> Token" where
  "word_token buf line_count =
     (if buf = ''int'' then \<lparr>type = TYPE_INT, line = line_count, val = None\<rparr>
      else if buf = ''char'' then \<lparr>type = TYPE_CHAR, line = line_count, val = None\<rparr>
      else if buf = ''var'' then \<lparr>type = VAR, line = line_count, val = None\<rparr>
      else if buf = ''func'' then \<lparr>type = FUNC, line = line_count, val = None\<rparr>
      else if buf = ''return'' then \<lparr>type = RETURN, line = line_count, val = None\<rparr>
      else if buf = ''if'' then \<lparr>type = IF, line = line_count, val = None\<rparr>
      else if buf = ''elif'' then \<lparr>type = ELIF, line = line_count, val = None\<rparr>
      else if buf = ''else'' then \<lparr>type = ELSE, line = line_count, val = None\<rparr>
      else \<lparr>type = IDENTIFIER, line = line_count, val = Some buf\<rparr>)"

text \<open>The single-character tokens, in the order of the source's \<^verbatim>\<open>else if\<close> chain.\<close>

definition punct :: "char \<Rightarrow> TokenType option" where
  "punct c =
     (if c = CHR ''='' then Some EQUAL
      else if c = CHR '':'' then Some COLON
      else if c = CHR '','' then Some COMMA
      else if c = CHR ''('' then Some LEFT_PARENTHESIS
      else if c = CHR '')'' then Some RIGHT_PARENTHESIS
      else if c = CHR ''{'' then Some LEFT_CURLY_BACKET
      else if c = CHR ''}'' then Some RIGHT_CURLY_BRACKET
      else if c = CHR ''+'' then Some PLUS
      else if c = CHR ''-'' then Some MINUS
      else if c = CHR ''*'' then Some STAR
      else if c = CHR ''/'' then Some SLASH
      else None)"

lemma read_while_mono: "read_while P src i buf = (b, j) \<Longrightarrow> i \<le> j"
proof (induction P src i buf rule: read_while.induct)
  case (1 P src i buf)
  show ?case
  proof (cases "i < length src \<and> P (src ! i)")
    case True
    with "1.prems" have "read_while P src (Suc i) (buf @ [src ! i]) = (b, j)"
      by (simp add: read_while.simps [of P src i buf])
    with "1.IH" True have "Suc i \<le> j" by blast
    then show ?thesis by simp
  next
    case False
    with "1.prems" show ?thesis by (auto simp: read_while.simps [of P src i buf])
  qed
qed

lemma skip_line_comment_mono: "i \<le> skip_line_comment src i"
proof (induction src i rule: skip_line_comment.induct)
  case (1 src i)
  show ?case
  proof (cases "i < length src \<and> src ! i \<noteq> newline")
    case True
    with "1.IH" have "Suc i \<le> skip_line_comment src (Suc i)" by blast
    with True show ?thesis
      by (simp add: skip_line_comment.simps [of src i])
  next
    case False
    then show ?thesis by (auto simp: skip_line_comment.simps [of src i])
  qed
qed

lemma skip_line_comment_slash:
  assumes "i < length src" and "src ! i = CHR ''/''"
  shows "i < skip_line_comment src i"
proof -
  have "skip_line_comment src i = skip_line_comment src (Suc i)"
    using assms by (simp add: skip_line_comment.simps [of src i])
  moreover have "Suc i \<le> skip_line_comment src (Suc i)"
    by (rule skip_line_comment_mono)
  ultimately show ?thesis by simp
qed

lemma skip_block_comment_mono: "i \<le> skip_block_comment src i"
proof (induction src i rule: skip_block_comment.induct)
  case (1 src i)
  show ?case
  proof (cases "i < length src \<and> \<not> (src ! i = CHR ''*'' \<and> peek_char src i 1 = Some (CHR ''/''))")
    case True
    with "1.IH" have "Suc i \<le> skip_block_comment src (Suc i)" by blast
    with True show ?thesis
      by (simp add: skip_block_comment.simps [of src i])
  next
    case False
    then show ?thesis
      by (auto simp: skip_block_comment.simps [of src i])
  qed
qed

text \<open>
  \<^verbatim>\<open>Tokenizer::tokenize\<close>: one call of \<open>tokenize_loop\<close> is one iteration of the outer
  \<^verbatim>\<open>while (peek().has_value())\<close>, at cursor \<open>i\<close> with the line counter and the tokens pushed
  so far. The branches are in the order of the source. \<^verbatim>\<open>int line_count\<close> is an unbounded
  integer here: it would take \<open>2^31\<close> newlines to overflow it.
\<close>

function tokenize_loop :: "string \<Rightarrow> nat \<Rightarrow> int \<Rightarrow> Token list \<Rightarrow> lex_error + Token list" where
  "tokenize_loop src i line_count tokens =
     (case peek_char src i 0 of
        None \<Rightarrow> Inr tokens
      | Some c \<Rightarrow>
          if c = CHR ''/'' \<and> peek_char src i 1 = Some (CHR ''/'') then
            tokenize_loop src (skip_line_comment src i) line_count tokens
          else if c = CHR ''/'' \<and> peek_char src i 1 = Some (CHR ''*'') then
            (let j = skip_block_comment src (i + 2);
                 j1 = (if peek_char src j 0 \<noteq> None then Suc j else j);
                 j2 = (if peek_char src j1 0 \<noteq> None then Suc j1 else j1)
             in tokenize_loop src j2 line_count tokens)
          else if isalpha c then
            (case read_while (\<lambda>d. isalnum d \<or> d = CHR ''_'') src (Suc i) [c] of
               (buf, j) \<Rightarrow> tokenize_loop src j line_count (tokens @ [word_token buf line_count]))
          else if isdigit c then
            (case read_while isdigit src (Suc i) [c] of
               (buf, j) \<Rightarrow>
                 tokenize_loop src j line_count
                   (tokens @ [\<lparr>type = INTEGER_LITERAL, line = line_count, val = Some buf\<rparr>]))
          else if punct c \<noteq> None then
            tokenize_loop src (Suc i) line_count
              (tokens @ [\<lparr>type = the (punct c), line = line_count, val = None\<rparr>])
          else if c = quote then
            (case peek_char src (Suc i) 0 of
               None \<Rightarrow> Inl (LexError ''[Error] expected a valid char on line '' line_count)
             | Some d \<Rightarrow>
                 if isalnum d then
                   (if peek_char src (Suc (Suc i)) 0 \<noteq> Some quote
                    then Inl (LexError (''[Error] expected '' @ [CHR 0x60, quote, CHR 0x60] @ '' on line '') line_count)
                    else tokenize_loop src (Suc (Suc (Suc i))) line_count
                           (tokens @ [\<lparr>type = CHAR_LITERAL, line = line_count, val = Some [d]\<rparr>]))
                 else Inl (LexError ''[Error] expected a valid char on line '' line_count))
          else if c = newline then
            tokenize_loop src (Suc i) (line_count + 1) tokens
          else if isspace c then
            tokenize_loop src (Suc i) line_count tokens
          else
            Inl (LexError (''[Error] invalid token '' @ [CHR 0x60, c, CHR 0x60] @ '' on line '') line_count))"
  by pat_completeness auto
termination
proof (relation "measure (\<lambda>(src, i, line_count, tokens). length src - i)", goal_cases)
  case 1
  show ?case by simp
next
  case (2 src i line_count tokens c)
  then have "i < length src" and "src ! i = CHR ''/''"
    by (auto simp: peek_char_def split: if_splits)
  then have "i < skip_line_comment src i" by (rule skip_line_comment_slash)
  with \<open>i < length src\<close> show ?case by simp
next
  case (3 src i line_count tokens c j j1 j2)
  then have "i < length src" by (auto simp: peek_char_def split: if_splits)
  moreover have "i + 2 \<le> j" unfolding \<open>j = _\<close> by (rule skip_block_comment_mono)
  moreover have "j \<le> j1" unfolding \<open>j1 = _\<close> by simp
  moreover have "j1 \<le> j2" unfolding \<open>j2 = _\<close> by simp
  ultimately show ?case by simp
next
  case (4 src i line_count tokens c buf j)
  then have "i < length src" by (auto simp: peek_char_def split: if_splits)
  moreover from 4 have "Suc i \<le> j" by (auto dest: read_while_mono [OF sym])
  ultimately show ?case by simp
next
  case (5 src i line_count tokens c buf j)
  then have "i < length src" by (auto simp: peek_char_def split: if_splits)
  moreover from 5 have "Suc i \<le> j" by (auto dest: read_while_mono [OF sym])
  ultimately show ?case by simp
next
  case (6 src i line_count tokens c)
  then show ?case by (auto simp: peek_char_def split: if_splits)
next
  case (7 src i line_count tokens c d)
  then show ?case by (auto simp: peek_char_def split: if_splits)
next
  case (8 src i line_count tokens c)
  then show ?case by (auto simp: peek_char_def split: if_splits)
next
  case (9 src i line_count tokens c)
  then show ?case by (auto simp: peek_char_def split: if_splits)
qed

declare tokenize_loop.simps [simp del]

definition tokenize :: "string \<Rightarrow> lex_error + Token list" where
  "tokenize src = tokenize_loop src 0 1 []"

section \<open>The syntax tree (parser.hpp, namespace Node)\<close>

text \<open>
  \<^verbatim>\<open>enum VarType { NONE, INT }\<close>; the constructors carry the name of the enumeration, as
  \<^verbatim>\<open>VarType::NONE\<close> and \<^verbatim>\<open>VarType::INT\<close> do in the source.
\<close>

datatype VarType = VarType_NONE | VarType_INT

fun to_string_VarType :: "VarType \<Rightarrow> string" where
  "to_string_VarType VarType_NONE = []"
| "to_string_VarType VarType_INT = ''int''"

fun to_variable_type :: "TokenType \<Rightarrow> VarType" where
  "to_variable_type INTEGER_LITERAL = VarType_INT"
| "to_variable_type _ = VarType_NONE"

text \<open>
  Every node struct holds a variant \<^verbatim>\<open>var\<close>; \<^verbatim>\<open>Term\<close> and \<^verbatim>\<open>Expr\<close> also hold a type tag.
  The arena pointers of the source are the subterms of the datatype.
\<close>

datatype TermVar = TermIntegerLiteral Token | TermIdentifier Token | TermParen Expr
  and Term = Term (term_var: TermVar) (term_type: VarType)
  and BinExpr = BinExprAdd Expr Expr | BinExprSub Expr Expr
              | BinExprMulti Expr Expr | BinExprDiv Expr Expr
  and ExprVar = ExprTerm Term | ExprBin BinExpr
  and Expr = Expr (expr_var: ExprVar) (expr_type: VarType)

datatype Scope = Scope (stmts: "Stmt list")
  and Stmt = StmtReturn Expr | StmtVar Token Expr | StmtVarAssign Token Expr
           | StmtScope Scope | StmtIf Expr Scope "IfPred option"
  and IfPred = IfPredElif Expr Scope "IfPred option" | IfPredElse Scope

datatype Prog = Prog (prog_stmts: "Stmt list")

section \<open>The parser (parser.hpp, class Parser)\<close>

text \<open>
  The ways a parse ends without a result. \<open>ParseError template_msg err_msg line\<close> is
  \<^verbatim>\<open>exit_with\<close>: the diagnostic
  \<^verbatim>\<open>[Parse Error] <template_msg> <err_msg> on line <line>\<close> and the exit.
  \<open>BadOptionalAccess\<close> is \<^verbatim>\<open>exit_with\<close> finding neither a current nor a previous token,
  \<open>AssertFailed\<close> the \<^verbatim>\<open>assert(false)\<close> of \<^verbatim>\<open>parse_expr\<close>, and \<open>OutOfFuel\<close> belongs to the
  model only: the recursion of the parser is bounded by a fuel argument.
\<close>

datatype parse_error =
    OutOfFuel
  | ParseError string string int
  | BadOptionalAccess
  | AssertFailed

text \<open>
  \<^verbatim>\<open>Parser::peek\<close>. The offset is an \<^verbatim>\<open>int\<close> added to the \<^verbatim>\<open>size_t\<close> cursor: a negative sum
  wraps around to a value beyond the size of any vector, so it reads nothing.
\<close>

definition peek :: "Token list \<Rightarrow> nat \<Rightarrow> int \<Rightarrow> Token option" where
  "peek toks i offset =
     (let k = int i + offset
      in if k < 0 \<or> k \<ge> int (length toks) then None else Some (toks ! nat k))"

definition peek_type :: "Token list \<Rightarrow> nat \<Rightarrow> TokenType \<Rightarrow> int \<Rightarrow> bool" where
  "peek_type toks i ty offset =
     (case peek toks i offset of None \<Rightarrow> False | Some t \<Rightarrow> type t = ty)"

text \<open>
  \<^verbatim>\<open>Parser::consume\<close> reads \<^verbatim>\<open>_tokens[_index++]\<close> unchecked; every call in the source follows
  a successful \<^verbatim>\<open>peek\<close> of the position it reads.
\<close>

definition consume :: "Token list \<Rightarrow> nat \<Rightarrow> Token \<times> nat" where
  "consume toks i = (toks ! i, Suc i)"

definition exit_with :: "Token list \<Rightarrow> nat \<Rightarrow> string \<Rightarrow> string \<Rightarrow> parse_error" where
  "exit_with toks i err_msg template_msg =
     (case peek toks i 0 of
        Some t \<Rightarrow> ParseError template_msg err_msg (line t)
      | None \<Rightarrow>
          (case peek toks i (- 1) of
             Some t \<Rightarrow> ParseError template_msg err_msg (line t)
           | None \<Rightarrow> BadOptionalAccess))"

definition try_consume :: "Token list \<Rightarrow> nat \<Rightarrow> TokenType \<Rightarrow> (Token \<times> nat) option" where
  "try_consume toks i ty =
     (case peek toks i 0 of
        None \<Rightarrow> None
      | Some t \<Rightarrow> if type t = ty then Some (consume toks i) else None)"

definition try_consume_err :: "Token list \<Rightarrow> nat \<Rightarrow> TokenType \<Rightarrow> parse_error + (Token \<times> nat)" where
  "try_consume_err toks i ty =
     (case peek toks i 0 of
        None \<Rightarrow> Inl (exit_with toks i (to_string ty) ''missing'')
      | Some t \<Rightarrow>
          if type t = ty then Inr (consume toks i)
          else Inl (exit_with toks i (to_string ty) ''missing''))"

text \<open>
  The fold at the end of the loop body of \<^verbatim>\<open>parse_expr\<close>: the old variant moves into a
  fresh left operand (whose tag is the default \<^verbatim>\<open>NONE\<close>), the binary node becomes the
  variant of \<^verbatim>\<open>expr\<close>, and the tag of \<^verbatim>\<open>expr\<close> is left as it was.
\<close>

definition fold_bin :: "Token \<Rightarrow> Expr \<Rightarrow> Expr \<Rightarrow> parse_error + Expr" where
  "fold_bin op expr expr_rside =
     (let expr_lside = Expr (expr_var expr) VarType_NONE
      in if type op = PLUS then
           Inr (Expr (ExprBin (BinExprAdd expr_lside expr_rside)) (expr_type expr))
         else if type op = MINUS then
           Inr (Expr (ExprBin (BinExprSub expr_lside expr_rside)) (expr_type expr))
         else if type op = STAR then
           Inr (Expr (ExprBin (BinExprMulti expr_lside expr_rside)) (expr_type expr))
         else if type op = SLASH then
           Inr (Expr (ExprBin (BinExprDiv expr_lside expr_rside)) (expr_type expr))
         else Inl AssertFailed)"

text \<open>
  \<^verbatim>\<open>parse_term\<close> and \<^verbatim>\<open>parse_expr\<close>; \<open>parse_expr_loop\<close> is one iteration of the
  \<^verbatim>\<open>while (true)\<close> of \<^verbatim>\<open>parse_expr\<close>, with the expression folded so far. The first argument
  is the fuel; the cursor \<^verbatim>\<open>_index\<close> is passed in and returned.
\<close>

fun parse_term :: "nat \<Rightarrow> Token list \<Rightarrow> nat \<Rightarrow> parse_error + (Term option \<times> nat)"
  and parse_expr :: "nat \<Rightarrow> Token list \<Rightarrow> int \<Rightarrow> nat \<Rightarrow> parse_error + (Expr option \<times> nat)"
  and parse_expr_loop :: "nat \<Rightarrow> Token list \<Rightarrow> int \<Rightarrow> Expr \<Rightarrow> nat \<Rightarrow> parse_error + (Expr \<times> nat)"
where
  "parse_term 0 toks i = Inl OutOfFuel"
| "parse_term (Suc n) toks i =
     (case try_consume toks i INTEGER_LITERAL of
        Some (int_lit, i1) \<Rightarrow> Inr (Some (Term (TermIntegerLiteral int_lit) VarType_INT), i1)
      | None \<Rightarrow>
     (case try_consume toks i IDENTIFIER of
        Some (ident, i1) \<Rightarrow>
          Inr (Some (Term (TermIdentifier ident) (to_variable_type (type ident))), i1)
      | None \<Rightarrow>
     (case try_consume toks i LEFT_PARENTHESIS of
        Some (open_paren, i1) \<Rightarrow>
          (case parse_expr n toks 0 i1 of
             Inl e \<Rightarrow> Inl e
           | Inr (None, i2) \<Rightarrow> Inl (exit_with toks i2 ''expression'' ''missing'')
           | Inr (Some expr, i2) \<Rightarrow>
               (case try_consume_err toks i2 RIGHT_PARENTHESIS of
                  Inl e \<Rightarrow> Inl e
                | Inr (close_paren, i3) \<Rightarrow>
                    Inr (Some (Term (TermParen expr) (expr_type expr)), i3)))
      | None \<Rightarrow> Inr (None, i))))"
| "parse_expr 0 toks min_prec i = Inl OutOfFuel"
| "parse_expr (Suc n) toks min_prec i =
     (case parse_term n toks i of
        Inl e \<Rightarrow> Inl e
      | Inr (None, i1) \<Rightarrow> Inr (None, i1)
      | Inr (Some lterm, i1) \<Rightarrow>
          (case parse_expr_loop n toks min_prec (Expr (ExprTerm lterm) (term_type lterm)) i1 of
             Inl e \<Rightarrow> Inl e
           | Inr (expr, i2) \<Rightarrow> Inr (Some expr, i2)))"
| "parse_expr_loop 0 toks min_prec expr i = Inl OutOfFuel"
| "parse_expr_loop (Suc n) toks min_prec expr i =
     (case peek toks i 0 of
        None \<Rightarrow> Inr (expr, i)
      | Some curr_tok \<Rightarrow>
          (case bin_prec (type curr_tok) of
             None \<Rightarrow> Inr (expr, i)
           | Some prec \<Rightarrow>
               if prec < min_prec then Inr (expr, i)
               else
                 (case consume toks i of
                    (op, i1) \<Rightarrow>
                      (case parse_expr n toks (prec + 1) i1 of
                         Inl e \<Rightarrow> Inl e
                       | Inr (None, i2) \<Rightarrow> Inl (exit_with toks i2 ''expression'' ''missing'')
                       | Inr (Some expr_rside, i2) \<Rightarrow>
                           if expr_type expr \<noteq> VarType_NONE \<and> expr_type expr_rside \<noteq> VarType_NONE
                              \<and> expr_type expr \<noteq> expr_type expr_rside
                           then Inl (exit_with toks i2
                                  (to_string_VarType (expr_type expr) @ to_string (type op)
                                     @ to_string_VarType (expr_type expr_rside))
                                  ''wrong operation :'')
                           else
                             (case fold_bin op expr expr_rside of
                                Inl e \<Rightarrow> Inl e
                              | Inr expr' \<Rightarrow> parse_expr_loop n toks min_prec expr' i2)))))"

text \<open>
  \<^verbatim>\<open>parse_scope\<close>, \<^verbatim>\<open>parse_if_pred\<close> and \<^verbatim>\<open>parse_stmt\<close>; \<open>parse_scope_loop\<close> is one
  iteration of the \<^verbatim>\<open>while (auto stmt = parse_stmt())\<close> of \<^verbatim>\<open>parse_scope\<close>, with the
  statements pushed so far.
\<close>

fun parse_scope :: "nat \<Rightarrow> Token list \<Rightarrow> nat \<Rightarrow> parse_error + (Scope option \<times> nat)"
  and parse_scope_loop :: "nat \<Rightarrow> Token list \<Rightarrow> Stmt list \<Rightarrow> nat \<Rightarrow> parse_error + (Stmt list \<times> nat)"
  and parse_if_pred :: "nat \<Rightarrow> Token list \<Rightarrow> nat \<Rightarrow> parse_error + (IfPred option \<times> nat)"
  and parse_stmt :: "nat \<Rightarrow> Token list \<Rightarrow> nat \<Rightarrow> parse_error + (Stmt option \<times> nat)"
where
  "parse_scope 0 toks i = Inl OutOfFuel"
| "parse_scope (Suc n) toks i =
     (case try_consume toks i LEFT_CURLY_BACKET of
        None \<Rightarrow> Inr (None, i)
      | Some (open_curly, i1) \<Rightarrow>
          (case parse_scope_loop n toks [] i1 of
             Inl e \<Rightarrow> Inl e
           | Inr (scope_stmts, i2) \<Rightarrow>
               (case try_consume_err toks i2 RIGHT_CURLY_BRACKET of
                  Inl e \<Rightarrow> Inl e
                | Inr (close_curly, i3) \<Rightarrow> Inr (Some (Scope scope_stmts), i3))))"
| "parse_scope_loop 0 toks scope_stmts i = Inl OutOfFuel"
| "parse_scope_loop (Suc n) toks scope_stmts i =
     (case parse_stmt n toks i of
        Inl e \<Rightarrow> Inl e
      | Inr (None, i1) \<Rightarrow> Inr (scope_stmts, i1)
      | Inr (Some stmt, i1) \<Rightarrow> parse_scope_loop n toks (scope_stmts @ [stmt]) i1)"
| "parse_if_pred 0 toks i = Inl OutOfFuel"
| "parse_if_pred (Suc n) toks i =
     (case try_consume toks i ELIF of
        Some (t, i1) \<Rightarrow>
          (case try_consume_err toks i1 LEFT_PARENTHESIS of
             Inl e \<Rightarrow> Inl e
           | Inr (open_paren, i2) \<Rightarrow>
               (case parse_expr n toks 0 i2 of
                  Inl e \<Rightarrow> Inl e
                | Inr (None, i3) \<Rightarrow> Inl (exit_with toks i3 ''expression'' ''missing'')
                | Inr (Some expr, i3) \<Rightarrow>
                    (case try_consume_err toks i3 RIGHT_PARENTHESIS of
                       Inl e \<Rightarrow> Inl e
                     | Inr (close_paren, i4) \<Rightarrow>
                         (case parse_scope n toks i4 of
                            Inl e \<Rightarrow> Inl e
                          | Inr (None, i5) \<Rightarrow> Inl (exit_with toks i5 ''scope'' ''missing'')
                          | Inr (Some scope, i5) \<Rightarrow>
                              (case parse_if_pred n toks i5 of
                                 Inl e \<Rightarrow> Inl e
                               | Inr (pred, i6) \<Rightarrow>
                                   Inr (Some (IfPredElif expr scope pred), i6))))))
      | None \<Rightarrow>
          (case try_consume toks i ELSE of
             Some (t, i1) \<Rightarrow>
               (case parse_scope n toks i1 of
                  Inl e \<Rightarrow> Inl e
                | Inr (None, i2) \<Rightarrow> Inl (exit_with toks i2 ''scope'' ''missing'')
                | Inr (Some scope, i2) \<Rightarrow> Inr (Some (IfPredElse scope), i2))
           | None \<Rightarrow> Inr (None, i)))"
| "parse_stmt 0 toks i = Inl OutOfFuel"
| "parse_stmt (Suc n) toks i =
     (if peek toks i 0 = None then Inr (None, i)
      else if peek_type toks i RETURN 0 then
        (case consume toks i of
           (return_tok, i1) \<Rightarrow>
             (case parse_expr n toks 0 i1 of
                Inl e \<Rightarrow> Inl e
              | Inr (None, i2) \<Rightarrow> Inl (exit_with toks i2 ''return value'' ''missing'')
              | Inr (Some ne, i2) \<Rightarrow> Inr (Some (StmtReturn ne), i2)))
      else if peek_type toks i VAR 0 \<and> peek_type toks i IDENTIFIER 1 \<and> peek_type toks i EQUAL 2 then
        (case consume toks i of
           (var_tok, i1) \<Rightarrow>
             (case consume toks i1 of
                (identifier, i2) \<Rightarrow>
                  (case consume toks i2 of
                     (equal_tok, i3) \<Rightarrow>
                       (case parse_expr n toks 0 i3 of
                          Inl e \<Rightarrow> Inl e
                        | Inr (None, i4) \<Rightarrow> Inl (exit_with toks i4 ''expression'' ''missing'')
                        | Inr (Some e, i4) \<Rightarrow> Inr (Some (StmtVar identifier e), i4)))))
      else if peek_type toks i IDENTIFIER 0 \<and> peek_type toks i EQUAL 1 then
        (case consume toks i of
           (ident, i1) \<Rightarrow>
             (case consume toks i1 of
                (equal_tok, i2) \<Rightarrow>
                  (case parse_expr n toks 0 i2 of
                     Inl e \<Rightarrow> Inl e
                   | Inr (None, i3) \<Rightarrow> Inl (exit_with toks i3 ''expression'' ''missing'')
                   | Inr (Some expr, i3) \<Rightarrow> Inr (Some (StmtVarAssign ident expr), i3))))
      else if peek_type toks i LEFT_CURLY_BACKET 0 then
        (case parse_scope n toks i of
           Inl e \<Rightarrow> Inl e
         | Inr (None, i1) \<Rightarrow> Inl (exit_with toks i1 ''scope'' ''missing'')
         | Inr (Some scope, i1) \<Rightarrow> Inr (Some (StmtScope scope), i1))
      else
        (case try_consume toks i IF of
           Some (tif, i1) \<Rightarrow>
             (case try_consume_err toks i1 LEFT_PARENTHESIS of
                Inl e \<Rightarrow> Inl e
              | Inr (open_paren, i2) \<Rightarrow>
                  (case parse_expr n toks 0 i2 of
                     Inl e \<Rightarrow> Inl e
                   | Inr (None, i3) \<Rightarrow> Inl (exit_with toks i3 ''expression'' ''missing'')
                   | Inr (Some expr, i3) \<Rightarrow>
                       (case try_consume_err toks i3 RIGHT_PARENTHESIS of
                          Inl e \<Rightarrow> Inl e
                        | Inr (close_paren, i4) \<Rightarrow>
                            (case parse_scope n toks i4 of
                               Inl e \<Rightarrow> Inl e
                             | Inr (None, i5) \<Rightarrow> Inl (exit_with toks i5 ''scope'' ''missing'')
                             | Inr (Some scope, i5) \<Rightarrow>
                                 (case parse_if_pred n toks i5 of
                                    Inl e \<Rightarrow> Inl e
                                  | Inr (pred, i6) \<Rightarrow>
                                      Inr (Some (StmtIf expr scope pred), i6))))))
         | None \<Rightarrow> Inr (None, i)))"

text \<open>
  \<^verbatim>\<open>parse_prog\<close>: \<open>parse_prog_loop\<close> is one iteration of its \<^verbatim>\<open>while (peek().has_value())\<close>,
  with the statements pushed so far.
\<close>

fun parse_prog_loop :: "nat \<Rightarrow> Token list \<Rightarrow> Stmt list \<Rightarrow> nat \<Rightarrow> parse_error + Prog" where
  "parse_prog_loop 0 toks ps i = Inl OutOfFuel"
| "parse_prog_loop (Suc n) toks ps i =
     (case peek toks i 0 of
        None \<Rightarrow> Inr (Prog ps)
      | Some t \<Rightarrow>
          (case parse_stmt n toks i of
             Inl e \<Rightarrow> Inl e
           | Inr (None, i1) \<Rightarrow> Inl (exit_with toks i1 ''statement'' ''missing'')
           | Inr (Some stmt, i1) \<Rightarrow> parse_prog_loop n toks (ps @ [stmt]) i1))"

text \<open>
  Fuel that is enough for every token sequence (proved below): each call and each loop
  iteration takes one unit, and between two units spent at the same cursor position
  there are at most two others.
\<close>

definition fuel :: "Token list \<Rightarrow> nat" where
  "fuel toks = 3 * length toks + 3"

definition parse_prog :: "Token list \<Rightarrow> parse_error + Prog" where
  "parse_prog toks = parse_prog_loop (fuel toks) toks [] 0"

section \<open>Facts about the cursor\<close>

text \<open>
  What the token-level helpers return, and three inductions on the fuel for the expression
  parser: the cursor only moves forward, fuel proportional to the unread tokens is enough,
  and more fuel does not change a result.
\<close>

lemma peek_0: "peek toks i 0 = (if i < length toks then Some (toks ! i) else None)"
  by (simp add: peek_def)

lemma try_consume_SomeD:
  "try_consume toks i ty = Some (t, j) \<Longrightarrow> j = Suc i \<and> i < length toks \<and> t = toks ! i \<and> type t = ty"
  by (auto simp: try_consume_def peek_0 consume_def split: if_splits)

lemma try_consume_err_InrD:
  "try_consume_err toks i ty = Inr (t, j) \<Longrightarrow> j = Suc i \<and> i < length toks \<and> t = toks ! i \<and> type t = ty"
  by (auto simp: try_consume_err_def peek_0 consume_def split: if_splits)

lemma exit_with_not_fuel: "exit_with toks i m t \<noteq> OutOfFuel"
  by (simp add: exit_with_def split: option.splits)

lemma try_consume_err_not_fuel: "try_consume_err toks i ty \<noteq> Inl OutOfFuel"
  by (simp add: try_consume_err_def exit_with_not_fuel split: option.splits)

lemma fold_bin_not_fuel: "fold_bin op e r \<noteq> Inl OutOfFuel"
  by (simp add: fold_bin_def Let_def)

lemma VarType_concrete_eq: "a \<noteq> VarType_NONE \<Longrightarrow> b \<noteq> VarType_NONE \<Longrightarrow> a = b"
  by (cases a; cases b) simp_all

lemma expr_progress:
  "(\<forall>i t j. parse_term n toks i = Inr (t, j) \<longrightarrow> (case t of None \<Rightarrow> j = i | Some _ \<Rightarrow> i < j \<and> j \<le> length toks))
 \<and> (\<forall>mp i t j. parse_expr n toks mp i = Inr (t, j) \<longrightarrow> (case t of None \<Rightarrow> j = i | Some _ \<Rightarrow> i < j \<and> j \<le> length toks))
 \<and> (\<forall>mp e i e' j. parse_expr_loop n toks mp e i = Inr (e', j) \<longrightarrow> (j = i \<or> i < j \<and> j \<le> length toks))"
proof (induction n)
  case 0
  show ?case by simp
next
  case (Suc n)
  then have IHt: "\<And>i t j. parse_term n toks i = Inr (Some t, j) \<Longrightarrow> i < j \<and> j \<le> length toks"
    and IHtN: "\<And>i j. parse_term n toks i = Inr (None, j) \<Longrightarrow> j = i"
    and IHe: "\<And>mp i t j. parse_expr n toks mp i = Inr (Some t, j) \<Longrightarrow> i < j \<and> j \<le> length toks"
    and IHeN: "\<And>mp i j. parse_expr n toks mp i = Inr (None, j) \<Longrightarrow> j = i"
    and IHl: "\<And>mp e i e' j. parse_expr_loop n toks mp e i = Inr (e', j) \<Longrightarrow> j = i \<or> i < j \<and> j \<le> length toks"
    by fastforce+
  have t: "\<forall>i t j. parse_term (Suc n) toks i = Inr (t, j) \<longrightarrow> (case t of None \<Rightarrow> j = i | Some _ \<Rightarrow> i < j \<and> j \<le> length toks)"
    by (auto split: option.splits sum.splits prod.splits dest!: try_consume_SomeD try_consume_err_InrD IHe)
  have e: "\<forall>mp i t j. parse_expr (Suc n) toks mp i = Inr (t, j) \<longrightarrow> (case t of None \<Rightarrow> j = i | Some _ \<Rightarrow> i < j \<and> j \<le> length toks)"
    by (auto split: option.splits sum.splits prod.splits dest!: IHt IHtN IHl)
  have l: "\<forall>mp e i e' j. parse_expr_loop (Suc n) toks mp e i = Inr (e', j) \<longrightarrow> (j = i \<or> i < j \<and> j \<le> length toks)"
    by (auto simp: peek_0 consume_def split: option.splits sum.splits prod.splits if_splits dest!: IHe IHl)
  from t e l show ?case by blast
qed


lemma expr_fuel:
  "(\<forall>i. 2 * (length toks - i) + 1 \<le> n \<longrightarrow> parse_term n toks i \<noteq> Inl OutOfFuel)
 \<and> (\<forall>mp i. 2 * (length toks - i) + 2 \<le> n \<longrightarrow> parse_expr n toks mp i \<noteq> Inl OutOfFuel)
 \<and> (\<forall>mp e i. 2 * (length toks - i) + 1 \<le> n \<longrightarrow> parse_expr_loop n toks mp e i \<noteq> Inl OutOfFuel)"
proof (induction n)
  case 0
  show ?case by simp
next
  case (Suc n)
  then have IHt: "\<And>i. 2 * (length toks - i) + 1 \<le> n \<Longrightarrow> parse_term n toks i \<noteq> Inl OutOfFuel"
    and IHe: "\<And>mp i. 2 * (length toks - i) + 2 \<le> n \<Longrightarrow> parse_expr n toks mp i \<noteq> Inl OutOfFuel"
    and IHl: "\<And>mp e i. 2 * (length toks - i) + 1 \<le> n \<Longrightarrow> parse_expr_loop n toks mp e i \<noteq> Inl OutOfFuel"
    by blast+
  note prog = expr_progress [of n toks]
  have t: "parse_term (Suc n) toks i \<noteq> Inl OutOfFuel" if "2 * (length toks - i) + 1 \<le> Suc n" for i
  proof (cases "try_consume toks i LEFT_PARENTHESIS")
    case None
    then show ?thesis by (simp split: option.splits prod.splits)
  next
    case (Some p)
    then obtain tk where p: "try_consume toks i LEFT_PARENTHESIS = Some (tk, Suc i)" and i: "i < length toks"
      by (cases p) (auto dest: try_consume_SomeD)
    from that i have "2 * (length toks - Suc i) + 2 \<le> n" by arith
    then have "parse_expr n toks 0 (Suc i) \<noteq> Inl OutOfFuel" by (rule IHe)
    with p show ?thesis
      by (auto simp: exit_with_not_fuel try_consume_err_not_fuel split: option.splits prod.splits sum.splits)
  qed
  have e: "parse_expr (Suc n) toks mp i \<noteq> Inl OutOfFuel" if "2 * (length toks - i) + 2 \<le> Suc n" for mp i
  proof -
    from that have "parse_term n toks i \<noteq> Inl OutOfFuel" by (intro IHt) arith
    moreover have "parse_expr_loop n toks mp ex i1 \<noteq> Inl OutOfFuel"
      if "parse_term n toks i = Inr (Some lt, i1)" for lt i1 ex
    proof -
      from prog that have "i < i1 \<and> i1 \<le> length toks" by fastforce
      with \<open>2 * (length toks - i) + 2 \<le> Suc n\<close> show ?thesis by (intro IHl) arith
    qed
    ultimately show ?thesis
      by (auto split: option.splits prod.splits sum.splits)
  qed
  have l: "parse_expr_loop (Suc n) toks mp ex i \<noteq> Inl OutOfFuel" if "2 * (length toks - i) + 1 \<le> Suc n" for mp ex i
  proof (cases "i < length toks")
    case False
    then show ?thesis by (simp add: peek_0)
  next
    case True
    with that have "parse_expr n toks mp' (Suc i) \<noteq> Inl OutOfFuel" for mp'
      by (intro IHe) arith
    moreover have "parse_expr_loop n toks mp ex' i2 \<noteq> Inl OutOfFuel"
      if "parse_expr n toks mp' (Suc i) = Inr (Some r, i2)" for mp' r i2 ex'
    proof -
      from prog that have "Suc i < i2 \<and> i2 \<le> length toks" by fastforce
      with \<open>2 * (length toks - i) + 1 \<le> Suc n\<close> show ?thesis by (intro IHl) arith
    qed
    ultimately show ?thesis using True
      by (auto simp: peek_0 consume_def exit_with_not_fuel fold_bin_not_fuel
               split: option.splits prod.splits sum.splits)
  qed
  from t e l show ?case by blast
qed

lemma expr_mono:
  "(\<forall>i m. n \<le> m \<longrightarrow> parse_term n toks i \<noteq> Inl OutOfFuel \<longrightarrow> parse_term m toks i = parse_term n toks i)
 \<and> (\<forall>mp i m. n \<le> m \<longrightarrow> parse_expr n toks mp i \<noteq> Inl OutOfFuel \<longrightarrow> parse_expr m toks mp i = parse_expr n toks mp i)
 \<and> (\<forall>mp e i m. n \<le> m \<longrightarrow> parse_expr_loop n toks mp e i \<noteq> Inl OutOfFuel
        \<longrightarrow> parse_expr_loop m toks mp e i = parse_expr_loop n toks mp e i)"
proof (induction n)
  case 0
  show ?case by simp
next
  case (Suc n)
  then have IHt: "\<And>i m. n \<le> m \<Longrightarrow> parse_term n toks i \<noteq> Inl OutOfFuel \<Longrightarrow> parse_term m toks i = parse_term n toks i"
    and IHe: "\<And>mp i m. n \<le> m \<Longrightarrow> parse_expr n toks mp i \<noteq> Inl OutOfFuel \<Longrightarrow> parse_expr m toks mp i = parse_expr n toks mp i"
    and IHl: "\<And>mp e i m. n \<le> m \<Longrightarrow> parse_expr_loop n toks mp e i \<noteq> Inl OutOfFuel
        \<Longrightarrow> parse_expr_loop m toks mp e i = parse_expr_loop n toks mp e i"
    by blast+
  have t: "parse_term (Suc m) toks i = parse_term (Suc n) toks i"
    if "n \<le> m" "parse_term (Suc n) toks i \<noteq> Inl OutOfFuel" for i m
  proof (cases "parse_expr n toks 0 (Suc i) = Inl OutOfFuel")
    case True
    with that(2) show ?thesis
      by (auto split: option.splits prod.splits sum.splits dest!: try_consume_SomeD)
  next
    case False
    then have "parse_expr m toks 0 (Suc i) = parse_expr n toks 0 (Suc i)" using that(1) by (intro IHe)
    then show ?thesis
      by (auto split: option.splits prod.splits sum.splits dest!: try_consume_SomeD)
  qed
  have e: "parse_expr (Suc m) toks mp i = parse_expr (Suc n) toks mp i"
    if "n \<le> m" "parse_expr (Suc n) toks mp i \<noteq> Inl OutOfFuel" for mp i m
  proof -
    from that(2) have nt: "parse_term n toks i \<noteq> Inl OutOfFuel" by auto
    then have 1: "parse_term m toks i = parse_term n toks i" using that(1) by (intro IHt)
    show ?thesis
    proof (cases "parse_term n toks i")
      case (Inl a)
      with 1 show ?thesis by simp
    next
      case (Inr p)
      obtain ot i1 where p: "p = (ot, i1)" by (cases p)
      show ?thesis
      proof (cases ot)
        case None
        with 1 Inr p show ?thesis by simp
      next
        case (Some lt)
        with that(2) Inr p
        have "parse_expr_loop n toks mp (Expr (ExprTerm lt) (term_type lt)) i1 \<noteq> Inl OutOfFuel"
          by auto
        then have "parse_expr_loop m toks mp (Expr (ExprTerm lt) (term_type lt)) i1
                 = parse_expr_loop n toks mp (Expr (ExprTerm lt) (term_type lt)) i1"
          using that(1) by (intro IHl)
        with 1 Inr p Some show ?thesis by simp
      qed
    qed
  qed
  have l: "parse_expr_loop (Suc m) toks mp ex i = parse_expr_loop (Suc n) toks mp ex i"
    if "n \<le> m" "parse_expr_loop (Suc n) toks mp ex i \<noteq> Inl OutOfFuel" for mp ex i m
  proof (cases "peek toks i 0")
    case None
    then show ?thesis by simp
  next
    case (Some tk)
    show ?thesis
    proof (cases "bin_prec (type tk)")
      case None
      with Some show ?thesis by simp
    next
      case (Some prec)
      note pr = this
      show ?thesis
      proof (cases "prec < mp")
        case True
        with \<open>peek toks i 0 = Some tk\<close> pr show ?thesis by simp
      next
        case False
        from that(2) \<open>peek toks i 0 = Some tk\<close> pr False
        have ne: "parse_expr n toks (prec + 1) (Suc i) \<noteq> Inl OutOfFuel"
          by (auto simp: consume_def)
        then have 1: "parse_expr m toks (prec + 1) (Suc i) = parse_expr n toks (prec + 1) (Suc i)"
          using that(1) by (intro IHe)
        have 2: "parse_expr_loop m toks mp ex' i2 = parse_expr_loop n toks mp ex' i2"
          if "parse_expr n toks (prec + 1) (Suc i) = Inr (Some r, i2)"
             "fold_bin (toks ! i) ex r = Inr ex'" for r i2 ex'
        proof -
          from \<open>parse_expr_loop (Suc n) toks mp ex i \<noteq> Inl OutOfFuel\<close>
               \<open>peek toks i 0 = Some tk\<close> pr False that
          have "parse_expr_loop n toks mp ex' i2 \<noteq> Inl OutOfFuel"
            by (auto simp: consume_def split: if_splits dest: VarType_concrete_eq)
          then show ?thesis using \<open>n \<le> m\<close> by (intro IHl)
        qed
        from \<open>peek toks i 0 = Some tk\<close> pr False 1 2 show ?thesis
          by (auto simp: consume_def split: option.splits prod.splits sum.splits)
      qed
    qed
  qed
  show ?case
  proof (intro conjI allI impI)
    fix i m assume "Suc n \<le> m" "parse_term (Suc n) toks i \<noteq> Inl OutOfFuel"
    then show "parse_term m toks i = parse_term (Suc n) toks i"
      using t [of "m - 1" i] by (cases m) auto
  next
    fix mp i m assume "Suc n \<le> m" "parse_expr (Suc n) toks mp i \<noteq> Inl OutOfFuel"
    then show "parse_expr m toks mp i = parse_expr (Suc n) toks mp i"
      using e [of "m - 1" mp i] by (cases m) auto
  next
    fix mp ex i m assume "Suc n \<le> m" "parse_expr_loop (Suc n) toks mp ex i \<noteq> Inl OutOfFuel"
    then show "parse_expr_loop m toks mp ex i = parse_expr_loop (Suc n) toks mp ex i"
      using l [of "m - 1" mp ex i] by (cases m) auto
  qed
qed

text \<open>The same three facts for scopes, statements and predicate chains.\<close>

lemma parse_expr_SomeD: "parse_expr n toks mp i = Inr (Some e, j) \<Longrightarrow> i < j \<and> j \<le> length toks"
  using expr_progress [of n toks] by fastforce

lemma parse_expr_NoneD: "parse_expr n toks mp i = Inr (None, j) \<Longrightarrow> j = i"
  using expr_progress [of n toks] by fastforce

lemma parse_expr_fuel: "2 * (length toks - i) + 2 \<le> n \<Longrightarrow> parse_expr n toks mp i \<noteq> Inl OutOfFuel"
  using expr_fuel [of toks n] by blast

lemma parse_expr_mono:
  "parse_expr n toks mp i = r \<Longrightarrow> r \<noteq> Inl OutOfFuel \<Longrightarrow> n \<le> m \<Longrightarrow> parse_expr m toks mp i = r"
  using expr_mono [of n toks] by blast

lemma peek_type_0: "peek_type toks i ty 0 = (i < length toks \<and> type (toks ! i) = ty)"
  by (simp add: peek_type_def peek_0)

lemma parse_stmt_branches [case_names none ret var assign scope ifstmt other]:
  obtains
    (none) "\<not> i < length toks" "\<And>n. parse_stmt (Suc n) toks i = Inr (None, i)"
  | (ret) "i < length toks"
      "\<And>n. parse_stmt (Suc n) toks i =
         (case parse_expr n toks 0 (Suc i) of
            Inl e \<Rightarrow> Inl e
          | Inr (None, i2) \<Rightarrow> Inl (exit_with toks i2 ''return value'' ''missing'')
          | Inr (Some ne, i2) \<Rightarrow> Inr (Some (StmtReturn ne), i2))"
  | (var) "i < length toks"
      "\<And>n. parse_stmt (Suc n) toks i =
         (case parse_expr n toks 0 (Suc (Suc (Suc i))) of
            Inl e \<Rightarrow> Inl e
          | Inr (None, i4) \<Rightarrow> Inl (exit_with toks i4 ''expression'' ''missing'')
          | Inr (Some e, i4) \<Rightarrow> Inr (Some (StmtVar (toks ! Suc i) e), i4))"
  | (assign) "i < length toks"
      "\<And>n. parse_stmt (Suc n) toks i =
         (case parse_expr n toks 0 (Suc (Suc i)) of
            Inl e \<Rightarrow> Inl e
          | Inr (None, i3) \<Rightarrow> Inl (exit_with toks i3 ''expression'' ''missing'')
          | Inr (Some expr, i3) \<Rightarrow> Inr (Some (StmtVarAssign (toks ! i) expr), i3))"
  | (scope) "i < length toks"
      "\<And>n. parse_stmt (Suc n) toks i =
         (case parse_scope n toks i of
            Inl e \<Rightarrow> Inl e
          | Inr (None, i1) \<Rightarrow> Inl (exit_with toks i1 ''scope'' ''missing'')
          | Inr (Some scope, i1) \<Rightarrow> Inr (Some (StmtScope scope), i1))"
  | (ifstmt) "i < length toks"
      "\<And>n. parse_stmt (Suc n) toks i =
         (case try_consume_err toks (Suc i) LEFT_PARENTHESIS of
            Inl e \<Rightarrow> Inl e
          | Inr (open_paren, i2) \<Rightarrow>
              (case parse_expr n toks 0 i2 of
                 Inl e \<Rightarrow> Inl e
               | Inr (None, i3) \<Rightarrow> Inl (exit_with toks i3 ''expression'' ''missing'')
               | Inr (Some expr, i3) \<Rightarrow>
                   (case try_consume_err toks i3 RIGHT_PARENTHESIS of
                      Inl e \<Rightarrow> Inl e
                    | Inr (close_paren, i4) \<Rightarrow>
                        (case parse_scope n toks i4 of
                           Inl e \<Rightarrow> Inl e
                         | Inr (None, i5) \<Rightarrow> Inl (exit_with toks i5 ''scope'' ''missing'')
                         | Inr (Some scope, i5) \<Rightarrow>
                             (case parse_if_pred n toks i5 of
                                Inl e \<Rightarrow> Inl e
                              | Inr (pred, i6) \<Rightarrow> Inr (Some (StmtIf expr scope pred), i6))))))"
  | (other) "\<And>n. parse_stmt (Suc n) toks i = Inr (None, i)"
proof (cases "i < length toks")
  case False
  then have "peek toks i 0 = None" by (simp add: peek_0)
  then have "\<And>n. parse_stmt (Suc n) toks i = Inr (None, i)" by simp
  with False show ?thesis by (rule none)
next
  case True
  then have pk: "peek toks i 0 = Some (toks ! i)" by (simp add: peek_0)
  show ?thesis
  proof (cases "peek_type toks i RETURN 0")
    case True
    with pk have "\<And>n. parse_stmt (Suc n) toks i =
         (case parse_expr n toks 0 (Suc i) of
            Inl e \<Rightarrow> Inl e
          | Inr (None, i2) \<Rightarrow> Inl (exit_with toks i2 ''return value'' ''missing'')
          | Inr (Some ne, i2) \<Rightarrow> Inr (Some (StmtReturn ne), i2))"
      by (simp add: consume_def)
    with \<open>i < length toks\<close> show ?thesis by (rule ret)
  next
    case nret: False
    show ?thesis
    proof (cases "peek_type toks i VAR 0 \<and> peek_type toks i IDENTIFIER 1 \<and> peek_type toks i EQUAL 2")
      case True
      with pk nret have "\<And>n. parse_stmt (Suc n) toks i =
         (case parse_expr n toks 0 (Suc (Suc (Suc i))) of
            Inl e \<Rightarrow> Inl e
          | Inr (None, i4) \<Rightarrow> Inl (exit_with toks i4 ''expression'' ''missing'')
          | Inr (Some e, i4) \<Rightarrow> Inr (Some (StmtVar (toks ! Suc i) e), i4))"
        by (simp add: consume_def)
      with \<open>i < length toks\<close> show ?thesis by (rule var)
    next
      case nvar: False
      show ?thesis
      proof (cases "peek_type toks i IDENTIFIER 0 \<and> peek_type toks i EQUAL 1")
        case True
        with pk nret nvar have "\<And>n. parse_stmt (Suc n) toks i =
         (case parse_expr n toks 0 (Suc (Suc i)) of
            Inl e \<Rightarrow> Inl e
          | Inr (None, i3) \<Rightarrow> Inl (exit_with toks i3 ''expression'' ''missing'')
          | Inr (Some expr, i3) \<Rightarrow> Inr (Some (StmtVarAssign (toks ! i) expr), i3))"
          by (auto simp: consume_def)
        with \<open>i < length toks\<close> show ?thesis by (rule assign)
      next
        case nasg: False
        show ?thesis
        proof (cases "peek_type toks i LEFT_CURLY_BACKET 0")
          case True
          with pk nret nvar nasg have "\<And>n. parse_stmt (Suc n) toks i =
             (case parse_scope n toks i of
                Inl e \<Rightarrow> Inl e
              | Inr (None, i1) \<Rightarrow> Inl (exit_with toks i1 ''scope'' ''missing'')
              | Inr (Some scope, i1) \<Rightarrow> Inr (Some (StmtScope scope), i1))"
            by auto
          with \<open>i < length toks\<close> show ?thesis by (rule scope)
        next
          case nsc: False
          show ?thesis
          proof (cases "try_consume toks i IF")
            case None
            with pk nret nvar nasg nsc have "\<And>n. parse_stmt (Suc n) toks i = Inr (None, i)"
              by auto
            then show ?thesis by (rule other)
          next
            case (Some p)
            then have "try_consume toks i IF = Some (toks ! i, Suc i)"
              by (cases p) (auto dest: try_consume_SomeD)
            with pk nret nvar nasg nsc have "\<And>n. parse_stmt (Suc n) toks i =
         (case try_consume_err toks (Suc i) LEFT_PARENTHESIS of
            Inl e \<Rightarrow> Inl e
          | Inr (open_paren, i2) \<Rightarrow>
              (case parse_expr n toks 0 i2 of
                 Inl e \<Rightarrow> Inl e
               | Inr (None, i3) \<Rightarrow> Inl (exit_with toks i3 ''expression'' ''missing'')
               | Inr (Some expr, i3) \<Rightarrow>
                   (case try_consume_err toks i3 RIGHT_PARENTHESIS of
                      Inl e \<Rightarrow> Inl e
                    | Inr (close_paren, i4) \<Rightarrow>
                        (case parse_scope n toks i4 of
                           Inl e \<Rightarrow> Inl e
                         | Inr (None, i5) \<Rightarrow> Inl (exit_with toks i5 ''scope'' ''missing'')
                         | Inr (Some scope, i5) \<Rightarrow>
                             (case parse_if_pred n toks i5 of
                                Inl e \<Rightarrow> Inl e
                              | Inr (pred, i6) \<Rightarrow> Inr (Some (StmtIf expr scope pred), i6))))))"
              by auto
            with \<open>i < length toks\<close> show ?thesis by (rule ifstmt)
          qed
        qed
      qed
    qed
  qed
qed

lemma stmt_progress:
  "(\<forall>i t j. parse_scope n toks i = Inr (t, j) \<longrightarrow> (case t of None \<Rightarrow> j = i | Some _ \<Rightarrow> i < j \<and> j \<le> length toks))
 \<and> (\<forall>ss i ss' j. parse_scope_loop n toks ss i = Inr (ss', j) \<longrightarrow> (j = i \<or> i < j \<and> j \<le> length toks))
 \<and> (\<forall>i t j. parse_if_pred n toks i = Inr (t, j) \<longrightarrow> (case t of None \<Rightarrow> j = i | Some _ \<Rightarrow> i < j \<and> j \<le> length toks))
 \<and> (\<forall>i t j. parse_stmt n toks i = Inr (t, j) \<longrightarrow> (case t of None \<Rightarrow> j = i | Some _ \<Rightarrow> i < j \<and> j \<le> length toks))"
proof (induction n)
  case 0
  show ?case by simp
next
  case (Suc n)
  then have IHs: "\<And>i t j. parse_scope n toks i = Inr (Some t, j) \<Longrightarrow> i < j \<and> j \<le> length toks"
    and IHsN: "\<And>i j. parse_scope n toks i = Inr (None, j) \<Longrightarrow> j = i"
    and IHl: "\<And>ss i ss' j. parse_scope_loop n toks ss i = Inr (ss', j) \<Longrightarrow> j = i \<or> i < j \<and> j \<le> length toks"
    and IHp: "\<And>i t j. parse_if_pred n toks i = Inr (Some t, j) \<Longrightarrow> i < j \<and> j \<le> length toks"
    and IHpN: "\<And>i j. parse_if_pred n toks i = Inr (None, j) \<Longrightarrow> j = i"
    and IHt: "\<And>i t j. parse_stmt n toks i = Inr (Some t, j) \<Longrightarrow> i < j \<and> j \<le> length toks"
    and IHtN: "\<And>i j. parse_stmt n toks i = Inr (None, j) \<Longrightarrow> j = i"
    by fastforce+
  have s: "\<forall>i t j. parse_scope (Suc n) toks i = Inr (t, j) \<longrightarrow> (case t of None \<Rightarrow> j = i | Some _ \<Rightarrow> i < j \<and> j \<le> length toks)"
    by (auto split: option.splits sum.splits prod.splits dest!: try_consume_SomeD try_consume_err_InrD IHl)
  have l: "\<forall>ss i ss' j. parse_scope_loop (Suc n) toks ss i = Inr (ss', j) \<longrightarrow> (j = i \<or> i < j \<and> j \<le> length toks)"
    by (auto split: option.splits sum.splits prod.splits dest!: IHt IHtN IHl)
  have pp: "\<And>x k j. parse_if_pred n toks k = Inr (x, j) \<Longrightarrow> k \<le> j \<and> (k < j \<longrightarrow> j \<le> length toks)"
    using IHp IHpN by (case_tac x) fastforce+
  have p: "\<forall>i t j. parse_if_pred (Suc n) toks i = Inr (t, j) \<longrightarrow> (case t of None \<Rightarrow> j = i | Some _ \<Rightarrow> i < j \<and> j \<le> length toks)"
    apply (auto split: option.splits sum.splits prod.splits
            dest!: try_consume_SomeD try_consume_err_InrD parse_expr_SomeD IHs pp)
    done
  have t: "\<forall>i t j. parse_stmt (Suc n) toks i = Inr (t, j) \<longrightarrow> (case t of None \<Rightarrow> j = i | Some _ \<Rightarrow> i < j \<and> j \<le> length toks)"
  proof (intro allI impI)
    fix i t j assume a: "parse_stmt (Suc n) toks i = Inr (t, j)"
    show "case t of None \<Rightarrow> j = i | Some _ \<Rightarrow> i < j \<and> j \<le> length toks"
    proof (cases rule: parse_stmt_branches [of i toks])
      case none
      with a show ?thesis by auto
    next
      case ret
      with a show ?thesis
        by (auto split: option.splits sum.splits prod.splits dest!: parse_expr_SomeD)
    next
      case var
      with a show ?thesis
        by (auto split: option.splits sum.splits prod.splits dest!: parse_expr_SomeD)
    next
      case assign
      with a show ?thesis
        by (auto split: option.splits sum.splits prod.splits dest!: parse_expr_SomeD)
    next
      case scope
      with a show ?thesis
        by (auto split: option.splits sum.splits prod.splits dest!: IHs)
    next
      case ifstmt
      with a show ?thesis
        by (auto split: option.splits sum.splits prod.splits
              dest!: try_consume_err_InrD parse_expr_SomeD IHs pp)
    next
      case other
      with a show ?thesis by auto
    qed
  qed
  from s l p t show ?case by blast
qed

lemma parse_scope_SomeD: "parse_scope n toks i = Inr (Some e, j) \<Longrightarrow> i < j \<and> j \<le> length toks"
  using stmt_progress [of n toks] by fastforce

lemma parse_scope_loop_D: "parse_scope_loop n toks ss i = Inr (ss', j) \<Longrightarrow> j = i \<or> i < j \<and> j \<le> length toks"
  using stmt_progress [of n toks] by fastforce

lemma parse_stmt_SomeD: "parse_stmt n toks i = Inr (Some e, j) \<Longrightarrow> i < j \<and> j \<le> length toks"
  using stmt_progress [of n toks] by fastforce

lemma parse_stmt_NoneD: "parse_stmt n toks i = Inr (None, j) \<Longrightarrow> j = i"
  using stmt_progress [of n toks] by fastforce

lemma stmt_fuel:
  "(\<forall>i. 3 * (length toks - i) + 1 \<le> n \<longrightarrow> parse_scope n toks i \<noteq> Inl OutOfFuel)
 \<and> (\<forall>ss i. 3 * (length toks - i) + 3 \<le> n \<longrightarrow> parse_scope_loop n toks ss i \<noteq> Inl OutOfFuel)
 \<and> (\<forall>i. 3 * (length toks - i) + 1 \<le> n \<longrightarrow> parse_if_pred n toks i \<noteq> Inl OutOfFuel)
 \<and> (\<forall>i. 3 * (length toks - i) + 2 \<le> n \<longrightarrow> parse_stmt n toks i \<noteq> Inl OutOfFuel)"
proof (induction n)
  case 0
  show ?case by simp
next
  case (Suc n)
  then have IHs: "\<And>i. 3 * (length toks - i) + 1 \<le> n \<Longrightarrow> parse_scope n toks i \<noteq> Inl OutOfFuel"
    and IHl: "\<And>ss i. 3 * (length toks - i) + 3 \<le> n \<Longrightarrow> parse_scope_loop n toks ss i \<noteq> Inl OutOfFuel"
    and IHp: "\<And>i. 3 * (length toks - i) + 1 \<le> n \<Longrightarrow> parse_if_pred n toks i \<noteq> Inl OutOfFuel"
    and IHt: "\<And>i. 3 * (length toks - i) + 2 \<le> n \<Longrightarrow> parse_stmt n toks i \<noteq> Inl OutOfFuel"
    by blast+
  have s: "parse_scope (Suc n) toks i \<noteq> Inl OutOfFuel" if "3 * (length toks - i) + 1 \<le> Suc n" for i
  proof (cases "try_consume toks i LEFT_CURLY_BACKET")
    case None
    then show ?thesis by simp
  next
    case (Some p)
    then have p: "try_consume toks i LEFT_CURLY_BACKET = Some (toks ! i, Suc i)" and i: "i < length toks"
      by (cases p; auto dest: try_consume_SomeD)+
    from that i have "parse_scope_loop n toks [] (Suc i) \<noteq> Inl OutOfFuel"
      by (intro IHl) arith
    with p show ?thesis
      by (auto simp: try_consume_err_not_fuel split: prod.splits sum.splits)
  qed
  have l: "parse_scope_loop (Suc n) toks ss i \<noteq> Inl OutOfFuel" if "3 * (length toks - i) + 3 \<le> Suc n" for ss i
  proof -
    from that have "parse_stmt n toks i \<noteq> Inl OutOfFuel" by (intro IHt) arith
    moreover have "parse_scope_loop n toks ss' i1 \<noteq> Inl OutOfFuel"
      if "parse_stmt n toks i = Inr (Some st, i1)" for st i1 ss'
    proof -
      from that have "i < i1 \<and> i1 \<le> length toks" by (rule parse_stmt_SomeD)
      with \<open>3 * (length toks - i) + 3 \<le> Suc n\<close> show ?thesis by (intro IHl) arith
    qed
    ultimately show ?thesis
      by (auto split: option.splits prod.splits sum.splits)
  qed
  have p: "parse_if_pred (Suc n) toks i \<noteq> Inl OutOfFuel" if b: "3 * (length toks - i) + 1 \<le> Suc n" for i
  proof (cases "i < length toks")
    case False
    then show ?thesis by (simp add: try_consume_def peek_0)
  next
    case True
    with b have E: "\<And>mp k. i < k \<Longrightarrow> parse_expr n toks mp k \<noteq> Inl OutOfFuel"
      by (intro parse_expr_fuel) arith
    from True b have S: "\<And>k. i < k \<Longrightarrow> parse_scope n toks k \<noteq> Inl OutOfFuel"
      by (intro IHs) arith
    from True b have P: "\<And>k. i < k \<Longrightarrow> parse_if_pred n toks k \<noteq> Inl OutOfFuel"
      by (intro IHp) arith
    show ?thesis
      by (auto simp: try_consume_err_not_fuel exit_with_not_fuel E S P
            split: option.splits prod.splits sum.splits
            dest!: try_consume_SomeD try_consume_err_InrD parse_expr_SomeD parse_scope_SomeD)
  qed
  have t: "parse_stmt (Suc n) toks i \<noteq> Inl OutOfFuel" if b: "3 * (length toks - i) + 2 \<le> Suc n" for i
  proof (cases "i < length toks")
    case False
    then show ?thesis by (simp add: peek_0)
  next
    case True
    with b have E: "\<And>mp k. i < k \<Longrightarrow> parse_expr n toks mp k \<noteq> Inl OutOfFuel"
      by (intro parse_expr_fuel) arith
    from True b have S: "\<And>k. i \<le> k \<Longrightarrow> parse_scope n toks k \<noteq> Inl OutOfFuel"
      by (intro IHs) arith
    from True b have P: "\<And>k. i < k \<Longrightarrow> parse_if_pred n toks k \<noteq> Inl OutOfFuel"
      by (intro IHp) arith
    show ?thesis
    proof (cases rule: parse_stmt_branches [of i toks])
      case ifstmt
      then show ?thesis
        by (auto simp: try_consume_err_not_fuel exit_with_not_fuel E S P
              split: option.splits prod.splits sum.splits
              dest!: try_consume_err_InrD parse_expr_SomeD parse_scope_SomeD)
    qed (auto simp: exit_with_not_fuel E S split: option.splits prod.splits sum.splits)
  qed
  from s l p t show ?case by blast
qed

lemma parse_stmt_fuel: "3 * (length toks - i) + 2 \<le> n \<Longrightarrow> parse_stmt n toks i \<noteq> Inl OutOfFuel"
  using stmt_fuel [of toks n] by blast

lemma prog_loop_fuel:
  "3 * (length toks - i) + 3 \<le> n \<Longrightarrow> parse_prog_loop n toks ps i \<noteq> Inl OutOfFuel"
proof (induction n arbitrary: ps i)
  case 0
  then show ?case by simp
next
  case (Suc n)
  from Suc.prems have "parse_stmt n toks i \<noteq> Inl OutOfFuel" by (intro parse_stmt_fuel) arith
  moreover have "parse_prog_loop n toks ps' i1 \<noteq> Inl OutOfFuel"
    if "parse_stmt n toks i = Inr (Some st, i1)" for st i1 ps'
  proof -
    from that have "i < i1 \<and> i1 \<le> length toks" by (rule parse_stmt_SomeD)
    with Suc.prems show ?thesis by (intro Suc.IH) arith
  qed
  ultimately show ?case
    by (auto simp: exit_with_not_fuel split: option.splits prod.splits sum.splits)
qed

lemma stmt_mono:
  "(\<forall>i r m. parse_scope n toks i = r \<longrightarrow> r \<noteq> Inl OutOfFuel \<longrightarrow> n \<le> m \<longrightarrow> parse_scope m toks i = r)
 \<and> (\<forall>ss i r m. parse_scope_loop n toks ss i = r \<longrightarrow> r \<noteq> Inl OutOfFuel \<longrightarrow> n \<le> m \<longrightarrow> parse_scope_loop m toks ss i = r)
 \<and> (\<forall>i r m. parse_if_pred n toks i = r \<longrightarrow> r \<noteq> Inl OutOfFuel \<longrightarrow> n \<le> m \<longrightarrow> parse_if_pred m toks i = r)
 \<and> (\<forall>i r m. parse_stmt n toks i = r \<longrightarrow> r \<noteq> Inl OutOfFuel \<longrightarrow> n \<le> m \<longrightarrow> parse_stmt m toks i = r)"
proof (induction n)
  case 0
  show ?case by simp
next
  case (Suc n)
  have step: "?case" if st:
    "\<And>m i. n \<le> m \<Longrightarrow> parse_scope (Suc n) toks i \<noteq> Inl OutOfFuel
        \<Longrightarrow> parse_scope (Suc m) toks i = parse_scope (Suc n) toks i"
    "\<And>m ss i. n \<le> m \<Longrightarrow> parse_scope_loop (Suc n) toks ss i \<noteq> Inl OutOfFuel
        \<Longrightarrow> parse_scope_loop (Suc m) toks ss i = parse_scope_loop (Suc n) toks ss i"
    "\<And>m i. n \<le> m \<Longrightarrow> parse_if_pred (Suc n) toks i \<noteq> Inl OutOfFuel
        \<Longrightarrow> parse_if_pred (Suc m) toks i = parse_if_pred (Suc n) toks i"
    "\<And>m i. n \<le> m \<Longrightarrow> parse_stmt (Suc n) toks i \<noteq> Inl OutOfFuel
        \<Longrightarrow> parse_stmt (Suc m) toks i = parse_stmt (Suc n) toks i"
  proof (intro conjI allI impI)
    fix i r m assume "parse_scope (Suc n) toks i = r" "r \<noteq> Inl OutOfFuel" "Suc n \<le> m"
    then show "parse_scope m toks i = r" using st(1) [of "m - 1" i] by (cases m) auto
  next
    fix ss i r m assume "parse_scope_loop (Suc n) toks ss i = r" "r \<noteq> Inl OutOfFuel" "Suc n \<le> m"
    then show "parse_scope_loop m toks ss i = r" using st(2) [of "m - 1" ss i] by (cases m) auto
  next
    fix i r m assume "parse_if_pred (Suc n) toks i = r" "r \<noteq> Inl OutOfFuel" "Suc n \<le> m"
    then show "parse_if_pred m toks i = r" using st(3) [of "m - 1" i] by (cases m) auto
  next
    fix i r m assume "parse_stmt (Suc n) toks i = r" "r \<noteq> Inl OutOfFuel" "Suc n \<le> m"
    then show "parse_stmt m toks i = r" using st(4) [of "m - 1" i] by (cases m) auto
  qed
  show ?case
  proof (rule step)
    fix m :: nat assume nm: "n \<le> m"
    from Suc nm have Ds: "\<And>i r. parse_scope n toks i = r \<Longrightarrow> r = Inl OutOfFuel \<or> parse_scope m toks i = r"
      and Dl: "\<And>ss i r. parse_scope_loop n toks ss i = r \<Longrightarrow> r = Inl OutOfFuel \<or> parse_scope_loop m toks ss i = r"
      and Dp: "\<And>i r. parse_if_pred n toks i = r \<Longrightarrow> r = Inl OutOfFuel \<or> parse_if_pred m toks i = r"
      and Dt: "\<And>i r. parse_stmt n toks i = r \<Longrightarrow> r = Inl OutOfFuel \<or> parse_stmt m toks i = r"
      by blast+
    from nm have De: "\<And>mp i r. parse_expr n toks mp i = r \<Longrightarrow> r = Inl OutOfFuel \<or> parse_expr m toks mp i = r"
      using parse_expr_mono by blast
    {
      fix i assume a: "parse_scope (Suc n) toks i \<noteq> Inl OutOfFuel"
      show "parse_scope (Suc m) toks i = parse_scope (Suc n) toks i"
      proof (cases "try_consume toks i LEFT_CURLY_BACKET")
        case None
        then show ?thesis by simp
      next
        case (Some p)
        obtain tk i1 where p: "p = (tk, i1)" by (cases p)
        from a Some p have "parse_scope_loop n toks [] i1 \<noteq> Inl OutOfFuel" by auto
        with Dl have "parse_scope_loop m toks [] i1 = parse_scope_loop n toks [] i1" by blast
        with Some p show ?thesis by simp
      qed
    next
      fix ss i assume a: "parse_scope_loop (Suc n) toks ss i \<noteq> Inl OutOfFuel"
      then have "parse_stmt n toks i \<noteq> Inl OutOfFuel" by auto
      with Dt have 1: "parse_stmt m toks i = parse_stmt n toks i" by blast
      have "parse_scope_loop m toks ss' i1 = parse_scope_loop n toks ss' i1"
        if "parse_stmt n toks i = Inr (Some s, i1)" "ss' = ss @ [s]" for s i1 ss'
      proof -
        from a that have "parse_scope_loop n toks ss' i1 \<noteq> Inl OutOfFuel" by auto
        with Dl show ?thesis by blast
      qed
      with 1 show "parse_scope_loop (Suc m) toks ss i = parse_scope_loop (Suc n) toks ss i"
        by (auto split: option.splits prod.splits sum.splits)
    next
      fix i assume a: "parse_if_pred (Suc n) toks i \<noteq> Inl OutOfFuel"
      show "parse_if_pred (Suc m) toks i = parse_if_pred (Suc n) toks i"
        using a
        by (auto split: option.split_asm prod.split_asm sum.split_asm
              dest!: De Ds Dp)
    next
      fix i assume a: "parse_stmt (Suc n) toks i \<noteq> Inl OutOfFuel"
      show "parse_stmt (Suc m) toks i = parse_stmt (Suc n) toks i"
      proof (cases rule: parse_stmt_branches [of i toks])
        case ifstmt
        with a have "(case try_consume_err toks (Suc i) LEFT_PARENTHESIS of
            Inl e \<Rightarrow> Inl e
          | Inr (open_paren, i2) \<Rightarrow>
              (case parse_expr n toks 0 i2 of
                 Inl e \<Rightarrow> Inl e
               | Inr (None, i3) \<Rightarrow> Inl (exit_with toks i3 ''expression'' ''missing'')
               | Inr (Some expr, i3) \<Rightarrow>
                   (case try_consume_err toks i3 RIGHT_PARENTHESIS of
                      Inl e \<Rightarrow> Inl e
                    | Inr (close_paren, i4) \<Rightarrow>
                        (case parse_scope n toks i4 of
                           Inl e \<Rightarrow> Inl e
                         | Inr (None, i5) \<Rightarrow> Inl (exit_with toks i5 ''scope'' ''missing'')
                         | Inr (Some scope, i5) \<Rightarrow>
                             (case parse_if_pred n toks i5 of
                                Inl e \<Rightarrow> Inl e
                              | Inr (pred, i6) \<Rightarrow> Inr (Some (StmtIf expr scope pred), i6)))))) \<noteq> Inl OutOfFuel"
          by simp
        then show ?thesis unfolding ifstmt(2)
          by (auto split: option.split_asm prod.split_asm sum.split_asm dest!: De Ds Dp)
      next
        case none then show ?thesis by simp
      next
        case other then show ?thesis by simp
      next
        case ret
        from a show ?thesis unfolding ret(2)
          by (auto split: option.split_asm prod.split_asm sum.split_asm dest!: De)
      next
        case var
        from a show ?thesis unfolding var(2)
          by (auto split: option.split_asm prod.split_asm sum.split_asm dest!: De)
      next
        case assign
        from a show ?thesis unfolding assign(2)
          by (auto split: option.split_asm prod.split_asm sum.split_asm dest!: De)
      next
        case scope
        from a show ?thesis unfolding scope(2)
          by (auto split: option.split_asm prod.split_asm sum.split_asm dest!: Ds)
      qed
    }
  qed
qed

text \<open>
  The exits of the parser are told apart by their template: \<open>wrong_operation\<close> holds of
  the type-mismatch diagnostic of \<^verbatim>\<open>parse_expr\<close> and of no other.
\<close>

fun wrong_operation :: "parse_error \<Rightarrow> bool" where
  "wrong_operation (ParseError template_msg err_msg l) = (template_msg = ''wrong operation :'')"
| "wrong_operation _ = False"

lemma exit_with_missing: "\<not> wrong_operation (exit_with toks i m ''missing'')"
  by (simp add: exit_with_def split: option.splits)

lemma try_consume_err_missing: "try_consume_err toks i ty = Inl e \<Longrightarrow> \<not> wrong_operation e"
  by (auto simp: try_consume_err_def exit_with_missing split: option.splits if_splits)

lemma fold_bin_no_wrong: "fold_bin op e r = Inl x \<Longrightarrow> \<not> wrong_operation x"
  by (auto simp: fold_bin_def Let_def split: if_splits)

lemma expr_no_wrong_operation:
  "(\<forall>i e. parse_term n toks i = Inl e \<longrightarrow> \<not> wrong_operation e)
 \<and> (\<forall>mp i e. parse_expr n toks mp i = Inl e \<longrightarrow> \<not> wrong_operation e)
 \<and> (\<forall>mp ex i e. parse_expr_loop n toks mp ex i = Inl e \<longrightarrow> \<not> wrong_operation e)"
proof (induction n)
  case 0
  show ?case by simp
next
  case (Suc n)
  then have IHt: "\<And>i e. parse_term n toks i = Inl e \<Longrightarrow> \<not> wrong_operation e"
    and IHe: "\<And>mp i e. parse_expr n toks mp i = Inl e \<Longrightarrow> \<not> wrong_operation e"
    and IHl: "\<And>mp ex i e. parse_expr_loop n toks mp ex i = Inl e \<Longrightarrow> \<not> wrong_operation e"
    by blast+
  have t: "\<not> wrong_operation e" if "parse_term (Suc n) toks i = Inl e" for i e
    using that
    by (auto simp: exit_with_missing
          split: option.splits prod.splits sum.splits
          dest!: IHe try_consume_err_missing)
  have e: "\<not> wrong_operation e" if "parse_expr (Suc n) toks mp i = Inl e" for mp i e
    using that
    by (auto split: option.splits prod.splits sum.splits dest!: IHt IHl)
  have l: "\<not> wrong_operation e" if "parse_expr_loop (Suc n) toks mp ex i = Inl e" for mp ex i e
    using that
    by (auto simp: exit_with_missing consume_def
          split: option.splits prod.splits sum.splits if_splits
          dest!: IHe IHl fold_bin_no_wrong dest: VarType_concrete_eq)
  from t e l show ?case by blast
qed

lemma parse_expr_no_wrong: "parse_expr n toks mp i = Inl e \<Longrightarrow> \<not> wrong_operation e"
  using expr_no_wrong_operation [of n toks] by blast

lemma stmt_no_wrong_operation:
  "(\<forall>i e. parse_scope n toks i = Inl e \<longrightarrow> \<not> wrong_operation e)
 \<and> (\<forall>ss i e. parse_scope_loop n toks ss i = Inl e \<longrightarrow> \<not> wrong_operation e)
 \<and> (\<forall>i e. parse_if_pred n toks i = Inl e \<longrightarrow> \<not> wrong_operation e)
 \<and> (\<forall>i e. parse_stmt n toks i = Inl e \<longrightarrow> \<not> wrong_operation e)"
proof (induction n)
  case 0
  show ?case by simp
next
  case (Suc n)
  then have IHs: "\<And>i e. parse_scope n toks i = Inl e \<Longrightarrow> \<not> wrong_operation e"
    and IHl: "\<And>ss i e. parse_scope_loop n toks ss i = Inl e \<Longrightarrow> \<not> wrong_operation e"
    and IHp: "\<And>i e. parse_if_pred n toks i = Inl e \<Longrightarrow> \<not> wrong_operation e"
    and IHt: "\<And>i e. parse_stmt n toks i = Inl e \<Longrightarrow> \<not> wrong_operation e"
    by blast+
  have s: "\<not> wrong_operation e" if "parse_scope (Suc n) toks i = Inl e" for i e
    using that
    by (auto split: option.splits prod.splits sum.splits dest!: IHl try_consume_err_missing)
  have l: "\<not> wrong_operation e" if "parse_scope_loop (Suc n) toks ss i = Inl e" for ss i e
    using that
    by (auto split: option.splits prod.splits sum.splits dest!: IHl IHt)
  have p: "\<not> wrong_operation e" if "parse_if_pred (Suc n) toks i = Inl e" for i e
    using that
    by (auto simp: exit_with_missing split: option.splits prod.splits sum.splits
          dest!: IHs IHp parse_expr_no_wrong try_consume_err_missing)
  have t: "\<not> wrong_operation e" if a: "parse_stmt (Suc n) toks i = Inl e" for i e
  proof (cases rule: parse_stmt_branches [of i toks])
    case ifstmt
    with a show ?thesis
      by (auto simp: exit_with_missing split: option.splits prod.splits sum.splits
            dest!: IHs IHp parse_expr_no_wrong try_consume_err_missing)
  next
    case scope
    with a show ?thesis
      by (auto simp: exit_with_missing split: option.splits prod.splits sum.splits dest!: IHs)
  qed (use a in \<open>auto simp: exit_with_missing split: option.splits prod.splits sum.splits
            dest!: parse_expr_no_wrong\<close>)
  from s l p t show ?case by blast
qed

lemma parse_stmt_no_wrong: "parse_stmt n toks i = Inl e \<Longrightarrow> \<not> wrong_operation e"
  using stmt_no_wrong_operation [of n toks] by blast

lemma prog_loop_no_wrong: "parse_prog_loop n toks ps i = Inl e \<Longrightarrow> \<not> wrong_operation e"
proof (induction n arbitrary: ps i)
  case 0
  then show ?case by auto
next
  case (Suc n)
  from Suc.prems show ?case
    by (auto simp: exit_with_missing split: option.splits prod.splits sum.splits
          dest!: parse_stmt_no_wrong Suc.IH)
qed

section \<open>Line numbers\<close>

text \<open>
  C2 says that every newline increments the line counter, so that a token's line is one
  plus the number of newlines before it, also when the newlines are inside a block comment.
  The code does not do this inside block comments: the block comment loop consumes its
  characters without looking for newlines. On the two-line input
  whose first line opens a block comment and whose second line closes it and then holds
  the identifier \<^verbatim>\<open>x\<close>, the token \<^verbatim>\<open>x\<close> is on line 2 of the source and the tokenizer
  attaches line 1 to it. The newline that ends a line comment is counted, as the second
  equation shows.
\<close>

theorem block_comment_newline_not_counted:
  "tokenize (''/*'' @ [newline] @ ''*/x'') = Inr [\<lparr>type = IDENTIFIER, line = 1, val = Some ''x''\<rparr>]
   \<and> tokenize (''//'' @ [newline] @ ''x'') = Inr [\<lparr>type = IDENTIFIER, line = 2, val = Some ''x''\<rparr>]"
  by code_simp

section \<open>Example token sequences and nodes\<close>

text \<open>
  The leaves of the example trees: an integer literal and an identifier as whole
  expressions (on line 1), and an integer literal as the left operand that a fold builds,
  whose tag is the default \<^verbatim>\<open>NONE\<close>.
\<close>

definition lit_expr :: "string \<Rightarrow> Expr" where
  "lit_expr s = Expr (ExprTerm (Term (TermIntegerLiteral \<lparr>type = INTEGER_LITERAL, line = 1, val = Some s\<rparr>)
             VarType_INT)) VarType_INT"

definition ident_expr :: "string \<Rightarrow> Expr" where
  "ident_expr s = Expr (ExprTerm (Term (TermIdentifier \<lparr>type = IDENTIFIER, line = 1, val = Some s\<rparr>)
             VarType_NONE)) VarType_NONE"

definition lit_lside :: "string \<Rightarrow> Expr" where
  "lit_lside s = Expr (expr_var (lit_expr s)) VarType_NONE"

section \<open>Precedence and associativity\<close>

definition toks_2_plus_3_times_4 :: "Token list" where
  "toks_2_plus_3_times_4 =
     [\<lparr>type = INTEGER_LITERAL, line = 1, val = Some ''2''\<rparr>,
      \<lparr>type = PLUS, line = 1, val = None\<rparr>,
      \<lparr>type = INTEGER_LITERAL, line = 1, val = Some ''3''\<rparr>,
      \<lparr>type = STAR, line = 1, val = None\<rparr>,
      \<lparr>type = INTEGER_LITERAL, line = 1, val = Some ''4''\<rparr>]"

text \<open>
  C3: the tokens of \<^verbatim>\<open>2 + 3 * 4\<close> parse to an addition whose left operand is the literal 2
  and whose right operand is the multiplication of the literals 3 and 4. \<^verbatim>\<open>+\<close> and \<^verbatim>\<open>-\<close>
  have precedence 0, \<^verbatim>\<open>*\<close> and \<^verbatim>\<open>/\<close> precedence 1, and an operator whose precedence is
  below the current minimum ends the folding loop, with the expression and the cursor as
  they are.
\<close>

theorem precedence_2_plus_3_times_4:
  "tokenize ''2 + 3 * 4'' = Inr toks_2_plus_3_times_4
   \<and> parse_expr (fuel toks_2_plus_3_times_4) toks_2_plus_3_times_4 0 0 =
       Inr (Some (Expr (ExprBin (BinExprAdd
              (lit_lside ''2'')
              (Expr (ExprBin (BinExprMulti (lit_lside ''3'') (lit_expr ''4''))) VarType_INT)))
            VarType_INT), 5)
   \<and> bin_prec PLUS = Some 0 \<and> bin_prec MINUS = Some 0
   \<and> bin_prec STAR = Some 1 \<and> bin_prec SLASH = Some 1
   \<and> (peek toks i 0 = Some curr_tok \<and> bin_prec (type curr_tok) = Some prec \<and> prec < min_prec
        \<longrightarrow> parse_expr_loop (Suc n) toks min_prec expr i = Inr (expr, i))"
proof -
  have "tokenize ''2 + 3 * 4'' = Inr toks_2_plus_3_times_4"
    by code_simp
  moreover have "parse_expr (fuel toks_2_plus_3_times_4) toks_2_plus_3_times_4 0 0 =
       Inr (Some (Expr (ExprBin (BinExprAdd
              (lit_lside ''2'')
              (Expr (ExprBin (BinExprMulti (lit_lside ''3'') (lit_expr ''4''))) VarType_INT)))
            VarType_INT), 5)"
    by code_simp
  moreover have "peek toks i 0 = Some curr_tok \<and> bin_prec (type curr_tok) = Some prec \<and> prec < min_prec
        \<longrightarrow> parse_expr_loop (Suc n) toks min_prec expr i = Inr (expr, i)"
    by simp
  ultimately show ?thesis by simp
qed

theorem precedence_2_plus_3_times_4_witness:
  "peek toks_2_plus_3_times_4 1 0 = Some \<lparr>type = PLUS, line = 1, val = None\<rparr>
   \<and> bin_prec (type \<lparr>type = PLUS, line = 1, val = None\<rparr>) = Some 0 \<and> (0 :: int) < 1
   \<and> parse_expr_loop (Suc 0) toks_2_plus_3_times_4 1 (lit_expr ''2'') 1 = Inr (lit_expr ''2'', 1)"
proof -
  have h: "peek toks_2_plus_3_times_4 1 0 = Some \<lparr>type = PLUS, line = 1, val = None\<rparr>
     \<and> bin_prec (type \<lparr>type = PLUS, line = 1, val = None\<rparr>) = Some 0 \<and> (0 :: int) < 1"
    by (simp add: peek_def toks_2_plus_3_times_4_def)
  with precedence_2_plus_3_times_4
         [of toks_2_plus_3_times_4 1 "\<lparr>type = PLUS, line = 1, val = None\<rparr>" 0 1 0 "lit_expr ''2''"]
  show ?thesis by blast
qed

definition toks_8_minus_3_minus_2 :: "Token list" where
  "toks_8_minus_3_minus_2 =
     [\<lparr>type = INTEGER_LITERAL, line = 1, val = Some ''8''\<rparr>,
      \<lparr>type = MINUS, line = 1, val = None\<rparr>,
      \<lparr>type = INTEGER_LITERAL, line = 1, val = Some ''3''\<rparr>,
      \<lparr>type = MINUS, line = 1, val = None\<rparr>,
      \<lparr>type = INTEGER_LITERAL, line = 1, val = Some ''2''\<rparr>]"

text \<open>
  C4: the tokens of \<^verbatim>\<open>8 - 3 - 2\<close> parse to the subtraction of 2 from the subtraction of 3
  from 8. An operator that is not below the minimum is consumed, and the right operand
  is parsed with the precedence of that operator plus one as its minimum; at that
  minimum an operator of the same precedence ends the loop, so it is not part of the right
  operand and is folded by the enclosing loop.
\<close>

theorem left_assoc_8_minus_3_minus_2:
  "tokenize ''8 - 3 - 2'' = Inr toks_8_minus_3_minus_2
   \<and> parse_expr (fuel toks_8_minus_3_minus_2) toks_8_minus_3_minus_2 0 0 =
       Inr (Some (Expr (ExprBin (BinExprSub
              (Expr (ExprBin (BinExprSub (lit_lside ''8'') (lit_expr ''3''))) VarType_NONE)
              (lit_expr ''2'')))
            VarType_INT), 5)
   \<and> (peek toks i 0 = Some op \<and> bin_prec (type op) = Some prec \<and> \<not> prec < min_prec
        \<longrightarrow> parse_expr_loop (Suc n) toks min_prec expr i =
            (case parse_expr n toks (prec + 1) (Suc i) of
               Inl e \<Rightarrow> Inl e
             | Inr (None, i2) \<Rightarrow> Inl (exit_with toks i2 ''expression'' ''missing'')
             | Inr (Some expr_rside, i2) \<Rightarrow>
                 (case fold_bin op expr expr_rside of
                    Inl e \<Rightarrow> Inl e
                  | Inr expr' \<Rightarrow> parse_expr_loop n toks min_prec expr' i2)))
   \<and> (peek toks i 0 = Some op \<and> bin_prec (type op) = Some prec
        \<longrightarrow> parse_expr_loop (Suc n) toks (prec + 1) expr i = Inr (expr, i))"
proof -
  have "tokenize ''8 - 3 - 2'' = Inr toks_8_minus_3_minus_2"
    by code_simp
  moreover have "parse_expr (fuel toks_8_minus_3_minus_2) toks_8_minus_3_minus_2 0 0 =
       Inr (Some (Expr (ExprBin (BinExprSub
              (Expr (ExprBin (BinExprSub (lit_lside ''8'') (lit_expr ''3''))) VarType_NONE)
              (lit_expr ''2'')))
            VarType_INT), 5)"
    by code_simp
  moreover have "peek toks i 0 = Some op \<and> bin_prec (type op) = Some prec \<and> \<not> prec < min_prec
        \<longrightarrow> parse_expr_loop (Suc n) toks min_prec expr i =
            (case parse_expr n toks (prec + 1) (Suc i) of
               Inl e \<Rightarrow> Inl e
             | Inr (None, i2) \<Rightarrow> Inl (exit_with toks i2 ''expression'' ''missing'')
             | Inr (Some expr_rside, i2) \<Rightarrow>
                 (case fold_bin op expr expr_rside of
                    Inl e \<Rightarrow> Inl e
                  | Inr expr' \<Rightarrow> parse_expr_loop n toks min_prec expr' i2))"
    by (auto simp: consume_def peek_0 split: sum.splits prod.splits option.splits if_splits
          dest: VarType_concrete_eq)
  moreover have "peek toks i 0 = Some op \<and> bin_prec (type op) = Some prec
        \<longrightarrow> parse_expr_loop (Suc n) toks (prec + 1) expr i = Inr (expr, i)"
    by simp
  ultimately show ?thesis by simp
qed

theorem left_assoc_8_minus_3_minus_2_witness:
  "peek toks_8_minus_3_minus_2 1 0 = Some \<lparr>type = MINUS, line = 1, val = None\<rparr>
   \<and> bin_prec (type \<lparr>type = MINUS, line = 1, val = None\<rparr>) = Some 0 \<and> \<not> (0 :: int) < 0
   \<and> parse_expr 16 toks_8_minus_3_minus_2 (0 + 1) (Suc 1) = Inr (Some (lit_expr ''3''), 3)
   \<and> peek toks_8_minus_3_minus_2 3 0 = Some \<lparr>type = MINUS, line = 1, val = None\<rparr>
   \<and> parse_expr_loop (Suc 14) toks_8_minus_3_minus_2 (0 + 1) (lit_expr ''3'') 3 = Inr (lit_expr ''3'', 3)
   \<and> parse_expr_loop (Suc 16) toks_8_minus_3_minus_2 0 (lit_expr ''8'') 1 =
       (case fold_bin \<lparr>type = MINUS, line = 1, val = None\<rparr> (lit_expr ''8'') (lit_expr ''3'') of
          Inl e \<Rightarrow> Inl e
        | Inr expr' \<Rightarrow> parse_expr_loop 16 toks_8_minus_3_minus_2 0 expr' 3)"
proof -
  have h: "peek toks_8_minus_3_minus_2 1 0 = Some \<lparr>type = MINUS, line = 1, val = None\<rparr>
     \<and> bin_prec (type \<lparr>type = MINUS, line = 1, val = None\<rparr>) = Some 0 \<and> \<not> (0 :: int) < 0"
    by (simp add: peek_def toks_8_minus_3_minus_2_def)
  have r: "parse_expr 16 toks_8_minus_3_minus_2 (0 + 1) (Suc 1) = Inr (Some (lit_expr ''3''), 3)"
    by code_simp
  from h left_assoc_8_minus_3_minus_2
         [of toks_8_minus_3_minus_2 1 "\<lparr>type = MINUS, line = 1, val = None\<rparr>" 0 0 16 "lit_expr ''8''"]
  have "parse_expr_loop (Suc 16) toks_8_minus_3_minus_2 0 (lit_expr ''8'') 1 =
            (case parse_expr 16 toks_8_minus_3_minus_2 (0 + 1) (Suc 1) of
               Inl e \<Rightarrow> Inl e
             | Inr (None, i2) \<Rightarrow> Inl (exit_with toks_8_minus_3_minus_2 i2 ''expression'' ''missing'')
             | Inr (Some expr_rside, i2) \<Rightarrow>
                 (case fold_bin \<lparr>type = MINUS, line = 1, val = None\<rparr> (lit_expr ''8'') expr_rside of
                    Inl e \<Rightarrow> Inl e
                  | Inr expr' \<Rightarrow> parse_expr_loop 16 toks_8_minus_3_minus_2 0 expr' i2))"
    by blast
  moreover have h3: "peek toks_8_minus_3_minus_2 3 0 = Some \<lparr>type = MINUS, line = 1, val = None\<rparr>"
    by (simp add: peek_def toks_8_minus_3_minus_2_def)
  moreover from h h3 left_assoc_8_minus_3_minus_2
         [of toks_8_minus_3_minus_2 3 "\<lparr>type = MINUS, line = 1, val = None\<rparr>" 0 0 14 "lit_expr ''3''"]
  have "parse_expr_loop (Suc 14) toks_8_minus_3_minus_2 (0 + 1) (lit_expr ''3'') 3 = Inr (lit_expr ''3'', 3)"
    by blast
  ultimately show ?thesis using h r by simp
qed

section \<open>Type tags\<close>

lemma parse_term_mono:
  "parse_term n toks i = r \<Longrightarrow> r \<noteq> Inl OutOfFuel \<Longrightarrow> n \<le> m \<Longrightarrow> parse_term m toks i = r"
  using expr_mono [of n toks] by blast

lemma fold_bin_type: "fold_bin op expr expr_rside = Inr expr' \<Longrightarrow> expr_type expr' = expr_type expr"
  by (auto simp: fold_bin_def Let_def split: if_splits)

lemma parse_expr_loop_type:
  "parse_expr_loop n toks min_prec expr i = Inr (expr', j) \<Longrightarrow> expr_type expr' = expr_type expr"
proof (induction n arbitrary: expr i)
  case 0
  then show ?case by simp
next
  case (Suc n)
  from Suc.prems show ?case
    by (auto simp: consume_def split: option.splits prod.splits sum.splits if_splits
          dest!: Suc.IH fold_bin_type)
qed

lemma parse_expr_SucD:
  assumes "parse_expr (Suc n) toks min_prec i = Inr (Some expr, j)"
  obtains lterm k where "parse_term n toks i = Inr (Some lterm, k)"
    and "parse_expr_loop n toks min_prec (Expr (ExprTerm lterm) (term_type lterm)) k = Inr (expr, j)"
proof (cases "parse_term n toks i")
  case (Inl e)
  with assms show ?thesis by simp
next
  case (Inr p)
  obtain ot k where p: "p = (ot, k)" by (cases p)
  show ?thesis
  proof (cases ot)
    case None
    with assms Inr p show ?thesis by simp
  next
    case (Some lterm)
    with assms Inr p
    have "parse_expr_loop n toks min_prec (Expr (ExprTerm lterm) (term_type lterm)) k = Inr (expr, j)"
      by (simp split: sum.splits prod.splits)
    with Inr p Some that show ?thesis by simp
  qed
qed

definition toks_x_plus_1 :: "Token list" where
  "toks_x_plus_1 =
     [\<lparr>type = IDENTIFIER, line = 1, val = Some ''x''\<rparr>,
      \<lparr>type = PLUS, line = 1, val = None\<rparr>,
      \<lparr>type = INTEGER_LITERAL, line = 1, val = Some ''1''\<rparr>]"

definition toks_1_plus_x :: "Token list" where
  "toks_1_plus_x =
     [\<lparr>type = INTEGER_LITERAL, line = 1, val = Some ''1''\<rparr>,
      \<lparr>type = PLUS, line = 1, val = None\<rparr>,
      \<lparr>type = IDENTIFIER, line = 1, val = Some ''x''\<rparr>]"

text \<open>
  C1, as the code has it: the tag of the expression that \<^verbatim>\<open>parse_expr\<close> returns is the tag
  of its first term. A fold keeps the tag of the expression folded so far and does not look
  at the tag of the right operand.
\<close>

theorem expr_type_is_leftmost_term_type:
  assumes "parse_expr n toks min_prec i = Inr (Some expr, j)"
  shows "\<exists>lterm k. parse_term n toks i = Inr (Some lterm, k) \<and> expr_type expr = term_type lterm"
proof (cases n)
  case 0
  with assms show ?thesis by simp
next
  case (Suc n')
  with assms have "parse_expr (Suc n') toks min_prec i = Inr (Some expr, j)" by blast
  then obtain lterm k where t: "parse_term n' toks i = Inr (Some lterm, k)"
    and l: "parse_expr_loop n' toks min_prec (Expr (ExprTerm lterm) (term_type lterm)) k = Inr (expr, j)"
    by (rule parse_expr_SucD)
  have "n' \<le> n" using Suc by simp
  then have "parse_term n toks i = Inr (Some lterm, k)"
    using parse_term_mono [OF t, of n] by simp
  moreover from l have "expr_type expr = term_type lterm"
    using parse_expr_loop_type [OF l] by simp
  ultimately show ?thesis by blast
qed

theorem expr_type_is_leftmost_term_type_witness:
  "parse_expr (fuel toks_1_plus_x) toks_1_plus_x 0 0 =
       Inr (Some (Expr (ExprBin (BinExprAdd (lit_lside ''1'') (ident_expr ''x''))) VarType_INT), 3)
   \<and> (\<exists>lterm k. parse_term (fuel toks_1_plus_x) toks_1_plus_x 0 = Inr (Some lterm, k)
         \<and> expr_type (Expr (ExprBin (BinExprAdd (lit_lside ''1'') (ident_expr ''x''))) VarType_INT)
             = term_type lterm)"
proof -
  have p: "parse_expr (fuel toks_1_plus_x) toks_1_plus_x 0 0 =
       Inr (Some (Expr (ExprBin (BinExprAdd (lit_lside ''1'') (ident_expr ''x''))) VarType_INT), 3)"
    by code_simp
  from expr_type_is_leftmost_term_type [OF p] p show ?thesis by blast
qed

text \<open>
  C1 as stated fails: \<^verbatim>\<open>x + 1\<close> folds an operand of type \<^verbatim>\<open>NONE\<close> with one of type
  \<^verbatim>\<open>INT\<close>; parsing succeeds and the tag of the result is \<^verbatim>\<open>NONE\<close>, not \<^verbatim>\<open>INT\<close>.
\<close>

theorem none_plus_int_has_type_none:
  "tokenize ''x + 1'' = Inr toks_x_plus_1
   \<and> parse_expr (fuel toks_x_plus_1) toks_x_plus_1 0 0 =
       Inr (Some (Expr (ExprBin (BinExprAdd (ident_expr ''x'') (lit_expr ''1''))) VarType_NONE), 3)
   \<and> expr_type (ident_expr ''x'') = VarType_NONE \<and> expr_type (lit_expr ''1'') = VarType_INT
   \<and> VarType_NONE \<noteq> VarType_INT"
  by code_simp

text \<open>
  C9: no call of the parser ends in the type-mismatch exit of \<^verbatim>\<open>parse_expr\<close>.
  \<^verbatim>\<open>to_variable_type\<close> maps the identifier kind to \<^verbatim>\<open>NONE\<close>, \<^verbatim>\<open>INT\<close> is the only other
  tag, and so two tags are never both concrete and different.
\<close>

theorem type_mismatch_branch_unreachable:
  "parse_term n toks i \<noteq> Inl (ParseError ''wrong operation :'' err_msg l)
   \<and> parse_expr n toks min_prec i \<noteq> Inl (ParseError ''wrong operation :'' err_msg l)
   \<and> parse_expr_loop n toks min_prec expr i \<noteq> Inl (ParseError ''wrong operation :'' err_msg l)
   \<and> parse_scope n toks i \<noteq> Inl (ParseError ''wrong operation :'' err_msg l)
   \<and> parse_if_pred n toks i \<noteq> Inl (ParseError ''wrong operation :'' err_msg l)
   \<and> parse_stmt n toks i \<noteq> Inl (ParseError ''wrong operation :'' err_msg l)
   \<and> parse_prog toks \<noteq> Inl (ParseError ''wrong operation :'' err_msg l)
   \<and> to_variable_type IDENTIFIER = VarType_NONE
   \<and> \<not> (a \<noteq> VarType_NONE \<and> b \<noteq> VarType_NONE \<and> a \<noteq> b)"
proof -
  have w: "wrong_operation (ParseError ''wrong operation :'' err_msg l)" by simp
  have "parse_term n toks i \<noteq> Inl (ParseError ''wrong operation :'' err_msg l)"
    using expr_no_wrong_operation [of n toks] w by blast
  moreover have "parse_expr n toks min_prec i \<noteq> Inl (ParseError ''wrong operation :'' err_msg l)"
    using expr_no_wrong_operation [of n toks] w by blast
  moreover have "parse_expr_loop n toks min_prec expr i \<noteq> Inl (ParseError ''wrong operation :'' err_msg l)"
    using expr_no_wrong_operation [of n toks] w by blast
  moreover have "parse_scope n toks i \<noteq> Inl (ParseError ''wrong operation :'' err_msg l)"
    using stmt_no_wrong_operation [of n toks] w by blast
  moreover have "parse_if_pred n toks i \<noteq> Inl (ParseError ''wrong operation :'' err_msg l)"
    using stmt_no_wrong_operation [of n toks] w by blast
  moreover have "parse_stmt n toks i \<noteq> Inl (ParseError ''wrong operation :'' err_msg l)"
    using stmt_no_wrong_operation [of n toks] w by blast
  moreover have "parse_prog toks \<noteq> Inl (ParseError ''wrong operation :'' err_msg l)"
    unfolding parse_prog_def using prog_loop_no_wrong [of "fuel toks" toks "[]" 0] w by blast
  moreover have "\<not> (a \<noteq> VarType_NONE \<and> b \<noteq> VarType_NONE \<and> a \<noteq> b)"
    using VarType_concrete_eq [of a b] by blast
  ultimately show ?thesis by simp
qed

section \<open>Character literals\<close>

text \<open>
  C5, as the code has it: when the scan stands on a quote with the line counter at
  \<open>line_count\<close>, a next character that is missing or not alphanumeric is the fatal error
  \<^verbatim>\<open>[Error] expected a valid char on line N\<close>; an alphanumeric character that is not
  followed by a quote is the fatal error with the text \<^verbatim>\<open>[Error] expected `'` on line N\<close>;
  otherwise a character literal token is pushed and the scan goes on after the closing
  quote.
\<close>

theorem char_literal_errors:
  "(peek_char src i 0 = Some quote
      \<and> (peek_char src (Suc i) 0 = None \<or> (\<exists>d. peek_char src (Suc i) 0 = Some d \<and> \<not> isalnum d))
     \<longrightarrow> tokenize_loop src i line_count tokens
           = Inl (LexError ''[Error] expected a valid char on line '' line_count))
   \<and> (peek_char src i 0 = Some quote \<and> peek_char src (Suc i) 0 = Some d \<and> isalnum d
      \<and> peek_char src (Suc (Suc i)) 0 \<noteq> Some quote
     \<longrightarrow> tokenize_loop src i line_count tokens
           = Inl (LexError (''[Error] expected '' @ [CHR 0x60, quote, CHR 0x60] @ '' on line '') line_count))
   \<and> (peek_char src i 0 = Some quote \<and> peek_char src (Suc i) 0 = Some d \<and> isalnum d
      \<and> peek_char src (Suc (Suc i)) 0 = Some quote
     \<longrightarrow> tokenize_loop src i line_count tokens
           = tokenize_loop src (Suc (Suc (Suc i))) line_count
               (tokens @ [\<lparr>type = CHAR_LITERAL, line = line_count, val = Some [d]\<rparr>]))"
proof -
  have q: "\<not> isalpha quote" "\<not> isdigit quote" "punct quote = None" "quote \<noteq> CHR ''/''"
    by (simp_all add: isalpha_def isdigit_def punct_def)
  show ?thesis
    by (auto simp: tokenize_loop.simps [of src i] q)
qed

theorem char_literal_errors_witness:
  "peek_char ([quote] @ ''+'') 0 0 = Some quote
   \<and> peek_char ([quote] @ ''+'') (Suc 0) 0 = Some (CHR ''+'') \<and> \<not> isalnum (CHR ''+'')
   \<and> tokenize_loop ([quote] @ ''+'') 0 1 [] = Inl (LexError ''[Error] expected a valid char on line '' 1)
   \<and> peek_char ([quote] @ ''ab'') 0 0 = Some quote
   \<and> peek_char ([quote] @ ''ab'') (Suc 0) 0 = Some (CHR ''a'') \<and> isalnum (CHR ''a'')
   \<and> peek_char ([quote] @ ''ab'') (Suc (Suc 0)) 0 \<noteq> Some quote
   \<and> tokenize_loop ([quote] @ ''ab'') 0 1 []
       = Inl (LexError (''[Error] expected '' @ [CHR 0x60, quote, CHR 0x60] @ '' on line '') 1)
   \<and> peek_char ([quote] @ ''a'' @ [quote]) (Suc (Suc 0)) 0 = Some quote
   \<and> tokenize_loop ([quote] @ ''a'' @ [quote]) 0 1 []
       = tokenize_loop ([quote] @ ''a'' @ [quote]) (Suc (Suc (Suc 0))) 1
           ([] @ [\<lparr>type = CHAR_LITERAL, line = 1, val = Some ''a''\<rparr>])"
proof -
  have h1: "peek_char ([quote] @ ''+'') 0 0 = Some quote
     \<and> peek_char ([quote] @ ''+'') (Suc 0) 0 = Some (CHR ''+'') \<and> \<not> isalnum (CHR ''+'')"
    by (simp add: peek_char_def isalnum_def isalpha_def isdigit_def)
  have h2: "peek_char ([quote] @ ''ab'') 0 0 = Some quote
     \<and> peek_char ([quote] @ ''ab'') (Suc 0) 0 = Some (CHR ''a'') \<and> isalnum (CHR ''a'')
     \<and> peek_char ([quote] @ ''ab'') (Suc (Suc 0)) 0 \<noteq> Some quote"
    by (simp add: peek_char_def isalnum_def isalpha_def isdigit_def)
  have h3: "peek_char ([quote] @ ''a'' @ [quote]) 0 0 = Some quote
     \<and> peek_char ([quote] @ ''a'' @ [quote]) (Suc 0) 0 = Some (CHR ''a'') \<and> isalnum (CHR ''a'')
     \<and> peek_char ([quote] @ ''a'' @ [quote]) (Suc (Suc 0)) 0 = Some quote"
    by (simp add: peek_char_def isalnum_def isalpha_def isdigit_def)
  from h1 char_literal_errors [of "[quote] @ ''+''" 0 1 "[]"]
  have 1: "tokenize_loop ([quote] @ ''+'') 0 1 [] = Inl (LexError ''[Error] expected a valid char on line '' 1)"
    by blast
  from h2 char_literal_errors [of "[quote] @ ''ab''" 0 1 "[]" "CHR ''a''"]
  have 2: "tokenize_loop ([quote] @ ''ab'') 0 1 []
       = Inl (LexError (''[Error] expected '' @ [CHR 0x60, quote, CHR 0x60] @ '' on line '') 1)"
    by blast
  from h3 char_literal_errors [of "[quote] @ ''a'' @ [quote]" 0 1 "[]" "CHR ''a''"]
  have 3: "tokenize_loop ([quote] @ ''a'' @ [quote]) 0 1 []
       = tokenize_loop ([quote] @ ''a'' @ [quote]) (Suc (Suc (Suc 0))) 1
           ([] @ [\<lparr>type = CHAR_LITERAL, line = 1, val = Some ''a''\<rparr>])"
    by blast
  from h1 h2 h3 1 2 3 show ?thesis by blast
qed

text \<open>
  C5 as stated fails: a quote, the letter \<^verbatim>\<open>a\<close> and the end of the input give a
  diagnostic that is not \<^verbatim>\<open>expected a valid char\<close>.
\<close>

theorem missing_closing_quote_diagnostic:
  "tokenize ([quote] @ ''a'')
     = Inl (LexError (''[Error] expected '' @ [CHR 0x60, quote, CHR 0x60] @ '' on line '') 1)
   \<and> ''[Error] expected '' @ [CHR 0x60, quote, CHR 0x60] @ '' on line ''
       \<noteq> ''[Error] expected a valid char on line ''"
  by code_simp

section \<open>Predicate chains\<close>

text \<open>
  The links of a predicate chain, in order: a link and then the links that its \<^verbatim>\<open>pred\<close>
  field points to. \<open>else_last\<close> says that a sequence of links has at most one \<^verbatim>\<open>else\<close>
  link and that such a link is the last one.
\<close>

fun is_else :: "IfPred \<Rightarrow> bool" where
  "is_else (IfPredElse scope) = True"
| "is_else (IfPredElif expr scope pred) = False"

fun chain :: "IfPred \<Rightarrow> IfPred list" where
  "chain (IfPredElse scope) = [IfPredElse scope]"
| "chain (IfPredElif expr scope pred) =
     IfPredElif expr scope pred # (case pred of None \<Rightarrow> [] | Some next_pred \<Rightarrow> chain next_pred)"

definition else_last :: "IfPred list \<Rightarrow> bool" where
  "else_last links =
     (length (filter is_else links) \<le> 1
      \<and> (\<forall>k < length links. is_else (links ! k) \<longrightarrow> Suc k = length links))"

lemma else_last_Nil: "else_last []"
  by (simp add: else_last_def)

lemma else_last_single: "else_last [link]"
  by (simp add: else_last_def)

lemma else_last_Cons: "\<not> is_else link \<Longrightarrow> else_last links \<Longrightarrow> else_last (link # links)"
  by (auto simp: else_last_def nth_Cons split: nat.splits)

lemma else_last_chain: "else_last (chain pred)"
proof (induction pred rule: chain.induct)
  case (1 scope)
  show ?case by (simp add: else_last_single)
next
  case (2 expr scope pred)
  show ?case
  proof (cases pred)
    case None
    then show ?thesis by (simp add: else_last_single)
  next
    case (Some next_pred)
    with 2 have "else_last (chain next_pred)" by simp
    with Some show ?thesis by (simp add: else_last_Cons)
  qed
qed

definition toks_if_elif_else :: "Token list" where
  "toks_if_elif_else =
     [\<lparr>type = IF, line = 1, val = None\<rparr>,
      \<lparr>type = LEFT_PARENTHESIS, line = 1, val = None\<rparr>,
      \<lparr>type = IDENTIFIER, line = 1, val = Some ''x''\<rparr>,
      \<lparr>type = RIGHT_PARENTHESIS, line = 1, val = None\<rparr>,
      \<lparr>type = LEFT_CURLY_BACKET, line = 1, val = None\<rparr>,
      \<lparr>type = RIGHT_CURLY_BRACKET, line = 1, val = None\<rparr>,
      \<lparr>type = ELIF, line = 1, val = None\<rparr>,
      \<lparr>type = LEFT_PARENTHESIS, line = 1, val = None\<rparr>,
      \<lparr>type = IDENTIFIER, line = 1, val = Some ''y''\<rparr>,
      \<lparr>type = RIGHT_PARENTHESIS, line = 1, val = None\<rparr>,
      \<lparr>type = LEFT_CURLY_BACKET, line = 1, val = None\<rparr>,
      \<lparr>type = RIGHT_CURLY_BRACKET, line = 1, val = None\<rparr>,
      \<lparr>type = ELSE, line = 1, val = None\<rparr>,
      \<lparr>type = LEFT_CURLY_BACKET, line = 1, val = None\<rparr>,
      \<lparr>type = RIGHT_CURLY_BRACKET, line = 1, val = None\<rparr>]"

text \<open>
  C7: every chain that \<^verbatim>\<open>parse_if_pred\<close> returns has at most one \<^verbatim>\<open>else\<close> link, and it is
  the last link; the tokens of \<^verbatim>\<open>if (x) {} elif (y) {} else {}\<close> parse to an \<^verbatim>\<open>if\<close> whose
  chain is one \<^verbatim>\<open>elif\<close> link followed by one \<^verbatim>\<open>else\<close> link.
\<close>

theorem if_pred_chain_shape:
  "(parse_if_pred n toks i = Inr (Some pred, j) \<longrightarrow> else_last (chain pred))
   \<and> tokenize ''if (x) {} elif (y) {} else {}'' = Inr toks_if_elif_else
   \<and> parse_prog toks_if_elif_else =
       Inr (Prog [StmtIf (ident_expr ''x'') (Scope [])
                    (Some (IfPredElif (ident_expr ''y'') (Scope []) (Some (IfPredElse (Scope [])))))])
   \<and> chain (IfPredElif (ident_expr ''y'') (Scope []) (Some (IfPredElse (Scope []))))
       = [IfPredElif (ident_expr ''y'') (Scope []) (Some (IfPredElse (Scope []))), IfPredElse (Scope [])]"
proof -
  have "tokenize ''if (x) {} elif (y) {} else {}'' = Inr toks_if_elif_else"
    by code_simp
  moreover have "parse_prog toks_if_elif_else =
       Inr (Prog [StmtIf (ident_expr ''x'') (Scope [])
                    (Some (IfPredElif (ident_expr ''y'') (Scope []) (Some (IfPredElse (Scope [])))))])"
    by code_simp
  ultimately show ?thesis by (simp add: else_last_chain)
qed

theorem if_pred_chain_shape_witness:
  "parse_if_pred (fuel toks_if_elif_else) toks_if_elif_else 6
     = Inr (Some (IfPredElif (ident_expr ''y'') (Scope []) (Some (IfPredElse (Scope [])))), 15)
   \<and> else_last (chain (IfPredElif (ident_expr ''y'') (Scope []) (Some (IfPredElse (Scope [])))))
   \<and> map is_else (chain (IfPredElif (ident_expr ''y'') (Scope []) (Some (IfPredElse (Scope [])))))
       = [False, True]"
proof -
  have p: "parse_if_pred (fuel toks_if_elif_else) toks_if_elif_else 6
     = Inr (Some (IfPredElif (ident_expr ''y'') (Scope []) (Some (IfPredElse (Scope [])))), 15)"
    by code_simp
  with if_pred_chain_shape [of "fuel toks_if_elif_else" toks_if_elif_else 6
         "IfPredElif (ident_expr ''y'') (Scope []) (Some (IfPredElse (Scope [])))" 15]
  have "else_last (chain (IfPredElif (ident_expr ''y'') (Scope []) (Some (IfPredElse (Scope [])))))"
    by blast
  with p show ?thesis by simp
qed

section \<open>Statement sequences\<close>

text \<open>
  \<open>stmts_at toks i ss\<close>: the tokens from position \<open>i\<close> to the end are the statements
  \<open>ss\<close> one after the other, each being what \<^verbatim>\<open>parse_stmt\<close> reads where the previous one
  ended.
\<close>

fun stmts_at :: "Token list \<Rightarrow> nat \<Rightarrow> Stmt list \<Rightarrow> bool" where
  "stmts_at toks i [] = (peek toks i 0 = None)"
| "stmts_at toks i (stmt # rest) =
     (peek toks i 0 \<noteq> None
      \<and> (case parse_stmt (fuel toks) toks i of
           Inl e \<Rightarrow> False
         | Inr (None, j) \<Rightarrow> False
         | Inr (Some s, j) \<Rightarrow> s = stmt \<and> stmts_at toks j rest))"

lemma parse_stmt_indep:
  assumes "parse_stmt n toks i \<noteq> Inl OutOfFuel" and "parse_stmt m toks i \<noteq> Inl OutOfFuel"
  shows "parse_stmt n toks i = parse_stmt m toks i"
proof (cases "n \<le> m")
  case True
  with assms(1) show ?thesis using stmt_mono [of n toks] by metis
next
  case False
  then have "m \<le> n" by simp
  with assms(2) show ?thesis using stmt_mono [of m toks] by metis
qed

lemma parse_stmt_at_fuel:
  assumes "3 * (length toks - i) + 2 \<le> n"
  shows "parse_stmt n toks i = parse_stmt (fuel toks) toks i"
proof (rule parse_stmt_indep)
  from assms show "parse_stmt n toks i \<noteq> Inl OutOfFuel" by (rule parse_stmt_fuel)
  show "parse_stmt (fuel toks) toks i \<noteq> Inl OutOfFuel"
    by (rule parse_stmt_fuel) (simp add: fuel_def)
qed

lemma prog_loop_of_stmts_at:
  "stmts_at toks i ss \<Longrightarrow> 3 * (length toks - i) + 3 \<le> n
     \<Longrightarrow> parse_prog_loop n toks ps i = Inr (Prog (ps @ ss))"
proof (induction ss arbitrary: i ps n)
  case Nil
  then obtain n' where "n = Suc n'" by (cases n) auto
  with Nil show ?case by simp
next
  case (Cons stmt rest)
  from Cons.prems(2) obtain n' where n: "n = Suc n'" by (cases n) auto
  from Cons.prems(1) obtain j where pk: "peek toks i 0 \<noteq> None"
    and st: "parse_stmt (fuel toks) toks i = Inr (Some stmt, j)" and rest: "stmts_at toks j rest"
    by (auto split: sum.splits prod.splits option.splits)
  from Cons.prems(2) n have "parse_stmt n' toks i = parse_stmt (fuel toks) toks i"
    by (intro parse_stmt_at_fuel) simp
  with st have st': "parse_stmt n' toks i = Inr (Some stmt, j)" by simp
  then have "i < j \<and> j \<le> length toks" by (rule parse_stmt_SomeD)
  with Cons.prems(2) n have "3 * (length toks - j) + 3 \<le> n'" by arith
  with rest have "parse_prog_loop n' toks (ps @ [stmt]) j = Inr (Prog ((ps @ [stmt]) @ rest))"
    by (rule Cons.IH)
  with pk st' n show ?case by auto
qed

lemma stmts_at_of_prog_loop:
  "parse_prog_loop n toks ps i = Inr (Prog out) \<Longrightarrow> \<exists>ss. out = ps @ ss \<and> stmts_at toks i ss"
proof (induction n arbitrary: ps i)
  case 0
  then show ?case by simp
next
  case (Suc n)
  show ?case
  proof (cases "peek toks i 0")
    case None
    with Suc.prems show ?thesis by simp
  next
    case (Some t)
    with Suc.prems obtain stmt j where st: "parse_stmt n toks i = Inr (Some stmt, j)"
      and l: "parse_prog_loop n toks (ps @ [stmt]) j = Inr (Prog out)"
      by (auto split: sum.splits prod.splits option.splits)
    from l obtain ss where ss: "out = (ps @ [stmt]) @ ss" "stmts_at toks j ss"
      using Suc.IH by blast
    have "parse_stmt n toks i = parse_stmt (fuel toks) toks i"
    proof (rule parse_stmt_indep)
      from st show "parse_stmt n toks i \<noteq> Inl OutOfFuel" by simp
      show "parse_stmt (fuel toks) toks i \<noteq> Inl OutOfFuel"
        by (rule parse_stmt_fuel) (simp add: fuel_def)
    qed
    with st have "parse_stmt (fuel toks) toks i = Inr (Some stmt, j)" by simp
    with Some ss(2) have "stmts_at toks i (stmt # ss)" by simp
    with ss(1) show ?thesis by (intro exI [of _ "stmt # ss"]) simp
  qed
qed

text \<open>
  C8: a token sequence that consists of the statements \<open>ss\<close> parses to the program whose
  statement sequence is \<open>ss\<close>, with the same length and in the same order; and whenever a
  program is returned, the token sequence consists of the statements of that program.
\<close>

theorem parse_prog_statement_sequence:
  "(stmts_at toks 0 ss \<longrightarrow>
      parse_prog toks = Inr (Prog ss) \<and> length (prog_stmts (Prog ss)) = length ss)
   \<and> (parse_prog toks = Inr prog \<longrightarrow> stmts_at toks 0 (prog_stmts prog))"
proof (intro conjI impI)
  assume "stmts_at toks 0 ss"
  then have "parse_prog_loop (fuel toks) toks [] 0 = Inr (Prog ([] @ ss))"
    by (rule prog_loop_of_stmts_at) (simp add: fuel_def)
  then show "parse_prog toks = Inr (Prog ss)" by (simp add: parse_prog_def)
next
  show "length (prog_stmts (Prog ss)) = length ss" by simp
next
  assume "parse_prog toks = Inr prog"
  then have "parse_prog_loop (fuel toks) toks [] 0 = Inr (Prog (prog_stmts prog))"
    by (simp add: parse_prog_def)
  then obtain ss' where "prog_stmts prog = [] @ ss'" and "stmts_at toks 0 ss'"
    using stmts_at_of_prog_loop by blast
  then show "stmts_at toks 0 (prog_stmts prog)" by simp
qed

definition toks_three_stmts :: "Token list" where
  "toks_three_stmts =
     [\<lparr>type = VAR, line = 1, val = None\<rparr>,
      \<lparr>type = IDENTIFIER, line = 1, val = Some ''x''\<rparr>,
      \<lparr>type = EQUAL, line = 1, val = None\<rparr>,
      \<lparr>type = INTEGER_LITERAL, line = 1, val = Some ''1''\<rparr>,
      \<lparr>type = IDENTIFIER, line = 1, val = Some ''x''\<rparr>,
      \<lparr>type = EQUAL, line = 1, val = None\<rparr>,
      \<lparr>type = IDENTIFIER, line = 1, val = Some ''x''\<rparr>,
      \<lparr>type = PLUS, line = 1, val = None\<rparr>,
      \<lparr>type = INTEGER_LITERAL, line = 1, val = Some ''2''\<rparr>,
      \<lparr>type = LEFT_CURLY_BACKET, line = 1, val = None\<rparr>,
      \<lparr>type = RETURN, line = 1, val = None\<rparr>,
      \<lparr>type = IDENTIFIER, line = 1, val = Some ''x''\<rparr>,
      \<lparr>type = RIGHT_CURLY_BRACKET, line = 1, val = None\<rparr>]"

definition three_stmts :: "Stmt list" where
  "three_stmts =
     [StmtVar \<lparr>type = IDENTIFIER, line = 1, val = Some ''x''\<rparr> (lit_expr ''1''),
      StmtVarAssign \<lparr>type = IDENTIFIER, line = 1, val = Some ''x''\<rparr>
        (Expr (ExprBin (BinExprAdd (ident_expr ''x'') (lit_expr ''2''))) VarType_NONE),
      StmtScope (Scope [StmtReturn (ident_expr ''x'')])]"

theorem parse_prog_statement_sequence_witness:
  "tokenize ''var x = 1 x = x + 2 { return x }'' = Inr toks_three_stmts
   \<and> stmts_at toks_three_stmts 0 three_stmts
   \<and> parse_prog toks_three_stmts = Inr (Prog three_stmts)
   \<and> length (prog_stmts (Prog three_stmts)) = 3"
proof -
  have t: "tokenize ''var x = 1 x = x + 2 { return x }'' = Inr toks_three_stmts" by code_simp
  have s: "stmts_at toks_three_stmts 0 three_stmts" by code_simp
  have l: "length three_stmts = 3" by (simp add: three_stmts_def)
  from s parse_prog_statement_sequence [of toks_three_stmts three_stmts]
  have "parse_prog toks_three_stmts = Inr (Prog three_stmts)
        \<and> length (prog_stmts (Prog three_stmts)) = length three_stmts"
    by blast
  with t s l show ?thesis by simp
qed

section \<open>Termination\<close>

lemma parse_term_D:
  "parse_term n toks i = Inr (r, j) \<Longrightarrow> (case r of None \<Rightarrow> j = i | Some lterm \<Rightarrow> i < j \<and> j \<le> length toks)"
  using expr_progress [of n toks] by blast

lemma parse_stmt_D:
  "parse_stmt n toks i = Inr (r, j) \<Longrightarrow> (case r of None \<Rightarrow> j = i | Some stmt \<Rightarrow> i < j \<and> j \<le> length toks)"
  using stmt_progress [of n toks] by blast

text \<open>
  C10: parsing ends on every token sequence: \<^verbatim>\<open>parse_prog\<close> never runs out of fuel, nor
  does any other entry point that is given the same fuel. A call of \<^verbatim>\<open>parse_stmt\<close> or
  \<^verbatim>\<open>parse_term\<close> that returns a node has moved the cursor forward by at least one token,
  within the tokens; a call that returns nothing has left the cursor where it was, and
  then the loop of \<^verbatim>\<open>parse_scope\<close> ends with the statements it has, the loop of
  \<^verbatim>\<open>parse_prog\<close> ends with the missing-statement exit, and \<^verbatim>\<open>parse_expr\<close> returns
  nothing.
\<close>

theorem parsing_terminates:
  "parse_prog toks \<noteq> Inl OutOfFuel
   \<and> (fuel toks \<le> n \<longrightarrow>
        parse_term n toks i \<noteq> Inl OutOfFuel \<and> parse_expr n toks min_prec i \<noteq> Inl OutOfFuel
      \<and> parse_scope n toks i \<noteq> Inl OutOfFuel \<and> parse_if_pred n toks i \<noteq> Inl OutOfFuel
      \<and> parse_stmt n toks i \<noteq> Inl OutOfFuel)
   \<and> (parse_stmt n toks i = Inr (Some stmt, j) \<longrightarrow> i < j \<and> j \<le> length toks)
   \<and> (parse_stmt n toks i = Inr (None, j) \<longrightarrow>
        j = i \<and> parse_scope_loop (Suc n) toks scope_stmts i = Inr (scope_stmts, i)
      \<and> (peek toks i 0 \<noteq> None \<longrightarrow>
           parse_prog_loop (Suc n) toks ps i = Inl (exit_with toks i ''statement'' ''missing'')))
   \<and> (parse_term n toks i = Inr (Some lterm, j) \<longrightarrow> i < j \<and> j \<le> length toks)
   \<and> (parse_term n toks i = Inr (None, j) \<longrightarrow> j = i \<and> parse_expr (Suc n) toks min_prec i = Inr (None, i))"
proof -
  have 1: "parse_prog toks \<noteq> Inl OutOfFuel"
    unfolding parse_prog_def by (rule prog_loop_fuel) (simp add: fuel_def)
  have 2: "parse_term n toks i \<noteq> Inl OutOfFuel \<and> parse_expr n toks min_prec i \<noteq> Inl OutOfFuel
      \<and> parse_scope n toks i \<noteq> Inl OutOfFuel \<and> parse_if_pred n toks i \<noteq> Inl OutOfFuel
      \<and> parse_stmt n toks i \<noteq> Inl OutOfFuel" if "fuel toks \<le> n"
  proof -
    from that have a: "2 * (length toks - i) + 2 \<le> n" and b: "3 * (length toks - i) + 2 \<le> n"
      by (simp_all add: fuel_def)
    from a have "parse_term n toks i \<noteq> Inl OutOfFuel" "parse_expr n toks min_prec i \<noteq> Inl OutOfFuel"
      using expr_fuel [of toks n] by auto
    moreover from b have "parse_scope n toks i \<noteq> Inl OutOfFuel" "parse_if_pred n toks i \<noteq> Inl OutOfFuel"
      "parse_stmt n toks i \<noteq> Inl OutOfFuel"
      using stmt_fuel [of toks n] by auto
    ultimately show ?thesis by blast
  qed
  have 3: "i < j \<and> j \<le> length toks" if "parse_stmt n toks i = Inr (Some stmt, j)"
    using parse_stmt_D [OF that] by simp
  have 4: "j = i \<and> parse_scope_loop (Suc n) toks scope_stmts i = Inr (scope_stmts, i)
      \<and> (peek toks i 0 \<noteq> None \<longrightarrow>
           parse_prog_loop (Suc n) toks ps i = Inl (exit_with toks i ''statement'' ''missing''))"
    if "parse_stmt n toks i = Inr (None, j)"
  proof -
    from parse_stmt_D [OF that] have "j = i" by simp
    with that show ?thesis by auto
  qed
  have 5: "i < j \<and> j \<le> length toks" if "parse_term n toks i = Inr (Some lterm, j)"
    using parse_term_D [OF that] by simp
  have 6: "j = i \<and> parse_expr (Suc n) toks min_prec i = Inr (None, i)" if "parse_term n toks i = Inr (None, j)"
  proof -
    from parse_term_D [OF that] have "j = i" by simp
    with that show ?thesis by auto
  qed
  from 1 2 3 4 5 6 show ?thesis by blast
qed

definition toks_return_1_curly :: "Token list" where
  "toks_return_1_curly =
     [\<lparr>type = RETURN, line = 1, val = None\<rparr>,
      \<lparr>type = INTEGER_LITERAL, line = 1, val = Some ''1''\<rparr>,
      \<lparr>type = RIGHT_CURLY_BRACKET, line = 1, val = None\<rparr>]"

theorem parsing_terminates_witness:
  "fuel toks_return_1_curly \<le> 12
   \<and> parse_stmt 12 toks_return_1_curly 0 = Inr (Some (StmtReturn (lit_expr ''1'')), 2)
   \<and> (0 :: nat) < 2 \<and> 2 \<le> length toks_return_1_curly
   \<and> parse_stmt 12 toks_return_1_curly 2 = Inr (None, 2)
   \<and> parse_scope_loop (Suc 12) toks_return_1_curly [StmtReturn (lit_expr ''1'')] 2
        = Inr ([StmtReturn (lit_expr ''1'')], 2)
   \<and> peek toks_return_1_curly 2 0 \<noteq> None
   \<and> parse_prog_loop (Suc 12) toks_return_1_curly [StmtReturn (lit_expr ''1'')] 2
        = Inl (ParseError ''missing'' ''statement'' 1)
   \<and> parse_term 12 toks_return_1_curly 1
        = Inr (Some (Term (TermIntegerLiteral \<lparr>type = INTEGER_LITERAL, line = 1, val = Some ''1''\<rparr>)
                 VarType_INT), 2)
   \<and> (1 :: nat) < 2
   \<and> parse_term 12 toks_return_1_curly 2 = Inr (None, 2)
   \<and> parse_expr (Suc 12) toks_return_1_curly 0 2 = Inr (None, 2)
   \<and> parse_prog toks_return_1_curly = Inl (ParseError ''missing'' ''statement'' 1)
   \<and> parse_prog toks_return_1_curly \<noteq> Inl OutOfFuel"
proof -
  have f: "fuel toks_return_1_curly \<le> 12" by (simp add: fuel_def toks_return_1_curly_def)
  have s0: "parse_stmt 12 toks_return_1_curly 0 = Inr (Some (StmtReturn (lit_expr ''1'')), 2)" by code_simp
  have s2: "parse_stmt 12 toks_return_1_curly 2 = Inr (None, 2)" by code_simp
  have t1: "parse_term 12 toks_return_1_curly 1
        = Inr (Some (Term (TermIntegerLiteral \<lparr>type = INTEGER_LITERAL, line = 1, val = Some ''1''\<rparr>)
                 VarType_INT), 2)" by code_simp
  have t2: "parse_term 12 toks_return_1_curly 2 = Inr (None, 2)" by code_simp
  have pk: "peek toks_return_1_curly 2 0 \<noteq> None" by (simp add: peek_def toks_return_1_curly_def)
  have ex: "exit_with toks_return_1_curly 2 ''statement'' ''missing'' = ParseError ''missing'' ''statement'' 1"
    by (simp add: exit_with_def peek_def toks_return_1_curly_def)
  have pp: "parse_prog toks_return_1_curly = Inl (ParseError ''missing'' ''statement'' 1)" by code_simp
  note a = parsing_terminates [of toks_return_1_curly 12 0 0 "StmtReturn (lit_expr ''1'')" 2]
  note b = parsing_terminates [of toks_return_1_curly 12 2 0 _ 2 "[StmtReturn (lit_expr ''1'')]" "[StmtReturn (lit_expr ''1'')]"]
  note c = parsing_terminates [of toks_return_1_curly 12 1 0 _ 2 _ _
              "Term (TermIntegerLiteral \<lparr>type = INTEGER_LITERAL, line = 1, val = Some ''1''\<rparr>) VarType_INT"]
  from a s0 have 1: "(0 :: nat) < 2 \<and> 2 \<le> length toks_return_1_curly" by blast
  from b s2 pk ex have 2: "parse_scope_loop (Suc 12) toks_return_1_curly [StmtReturn (lit_expr ''1'')] 2
        = Inr ([StmtReturn (lit_expr ''1'')], 2)
     \<and> parse_prog_loop (Suc 12) toks_return_1_curly [StmtReturn (lit_expr ''1'')] 2
        = Inl (ParseError ''missing'' ''statement'' 1)" by simp
  from b t2 have 3: "parse_expr (Suc 12) toks_return_1_curly 0 2 = Inr (None, 2)" by blast
  from a have 4: "parse_prog toks_return_1_curly \<noteq> Inl OutOfFuel" by blast
  from c t1 have 5: "(1 :: nat) < 2" by blast
  from f s0 s2 t1 t2 pk pp 1 2 3 4 5 show ?thesis by simp
qed

end
